theory Spec2Isabelle
  imports Main
begin

section \<open>Data model of package diff\<close>

text \<open>
  Go's \<^verbatim>\<open>int\<close> is modelled as \<^typ>\<open>int\<close>: every integer of the package is an index
  into, or a length of, a slice held in memory, so no operation comes near the 64-bit
  bound.  A Go \<^verbatim>\<open>string\<close> is a byte sequence, here \<^typ>\<open>string\<close>.  A slice is a list;
  a \<^verbatim>\<open>nil\<close> slice is the empty list.  A run-time panic is an \<open>error\<close> value.
\<close>

datatype error = IndexOutOfRange | SliceBoundsOutOfRange

datatype OpKind = Delete | Insert | Equal

record Op =
  Kind :: OpKind
  Content :: "string list"
  I1 :: int
  I2 :: int
  J1 :: int

text \<open>\<^verbatim>\<open>xs[i]\<close> as a read: Go panics when the index is out of range.\<close>

definition index :: "'a list \<Rightarrow> int \<Rightarrow> error + 'a" where
  "index xs i = (if 0 \<le> i \<and> i < int (length xs) then Inr (xs ! nat i) else Inl IndexOutOfRange)"

text \<open>\<^verbatim>\<open>xs[i] = v\<close>: the same check, the updated slice is returned.\<close>

definition store :: "'a list \<Rightarrow> int \<Rightarrow> 'a \<Rightarrow> error + 'a list" where
  "store xs i v = (if 0 \<le> i \<and> i < int (length xs) then Inr (xs[nat i := v]) else Inl IndexOutOfRange)"

text \<open>
  \<^verbatim>\<open>xs[lo:hi]\<close>.  Go checks \<open>0 \<le> lo \<le> hi \<le> cap(xs)\<close>; the model takes the capacity of
  a slice to be its length.
\<close>

definition slice :: "'a list \<Rightarrow> int \<Rightarrow> int \<Rightarrow> error + 'a list" where
  "slice xs lo hi =
     (if 0 \<le> lo \<and> lo \<le> hi \<and> hi \<le> int (length xs)
      then Inr (take (nat (hi - lo)) (drop (nat lo) xs))
      else Inl SliceBoundsOutOfRange)"

section \<open>The line comparer\<close>

text \<open>The loop \<^verbatim>\<open>for i := 0; i < la; i++\<close> of \<^verbatim>\<open>stringEqualIgnoreLF\<close>.\<close>

function eq_loop :: "string \<Rightarrow> string \<Rightarrow> int \<Rightarrow> int \<Rightarrow> error + bool" where
  "eq_loop a b la i =
     (if i < la then
        (case index a i of Inl e \<Rightarrow> Inl e | Inr ai \<Rightarrow>
         case index b i of Inl e \<Rightarrow> Inl e | Inr bi \<Rightarrow>
           if ai \<noteq> bi then Inr False else eq_loop a b la (i + 1))
      else Inr True)"
  by pat_completeness auto
termination
  by (relation "measure (\<lambda>(a, b, la, i). nat (la - i))") auto

declare eq_loop.simps [simp del]

text \<open>
  The adjustment \<^verbatim>\<open>if la > 0 && a[la-1] == '\r' { la = la - 1 }\<close>; \<^verbatim>\<open>&&\<close> reads the byte
  only when \<open>la > 0\<close>.
\<close>

definition strip_cr :: "string \<Rightarrow> int \<Rightarrow> error + int" where
  "strip_cr a la =
     (if la > 0 then
        (case index a (la - 1) of Inl e \<Rightarrow> Inl e
         | Inr c \<Rightarrow> if c = CHR 0x0D then Inr (la - 1) else Inr la)
      else Inr la)"

definition stringEqualIgnoreLF :: "string \<Rightarrow> string \<Rightarrow> error + bool" where
  "stringEqualIgnoreLF a b =
     (case strip_cr a (int (length a) - 1) of Inl e \<Rightarrow> Inl e | Inr la \<Rightarrow>
      case strip_cr b (int (length b) - 1) of Inl e \<Rightarrow> Inl e | Inr lb \<Rightarrow>
        if la \<noteq> lb then Inr False else eq_loop a b la 0)"

section \<open>SplitLines\<close>

text \<open>
  \<^verbatim>\<open>strings.SplitAfter(text, "\n")\<close> of Go's standard library, as its documentation
  describes it: the text is cut after each line feed, and the piece after the last
  line feed (possibly empty) is the last element, so the result is never empty.
\<close>

fun SplitAfter_nl :: "string \<Rightarrow> string list" where
  "SplitAfter_nl [] = [[]]"
| "SplitAfter_nl (c # cs) =
     (if c = CHR 0x0A then [c] # SplitAfter_nl cs
      else (case SplitAfter_nl cs of [] \<Rightarrow> [[c]] | l # ls \<Rightarrow> (c # l) # ls))"

definition SplitLines :: "string \<Rightarrow> error + string list" where
  "SplitLines text =
     (let lines = SplitAfter_nl text in
      case index lines (int (length lines) - 1) of Inl e \<Rightarrow> Inl e
      | Inr l \<Rightarrow> if l = [] then slice lines 0 (int (length lines) - 1) else Inr lines)"

section \<open>The forward search\<close>

text \<open>
  The condition \<^verbatim>\<open>k == -d || (k != d && V[k-1+offset] < V[k+1+offset])\<close>, written in
  both \<^verbatim>\<open>shortestEditSequence\<close> and \<^verbatim>\<open>backtrack\<close>, with Go's short-circuit
  evaluation: the two reads happen only when \<open>k \<noteq> -d\<close> and \<open>k \<noteq> d\<close>.
\<close>

definition go_down :: "int list \<Rightarrow> int \<Rightarrow> int \<Rightarrow> int \<Rightarrow> error + bool" where
  "go_down V offset d k =
     (if k = - d then Inr True
      else if k \<noteq> d then
        (case index V (k - 1 + offset) of Inl e \<Rightarrow> Inl e | Inr vl \<Rightarrow>
         case index V (k + 1 + offset) of Inl e \<Rightarrow> Inl e | Inr vr \<Rightarrow> Inr (vl < vr))
      else Inr False)"

text \<open>The diagonal run \<^verbatim>\<open>for x < M && y < N && stringEqualIgnoreLF(a[x], b[y])\<close>.\<close>

function diag_loop :: "string list \<Rightarrow> string list \<Rightarrow> int \<Rightarrow> int \<Rightarrow> error + (int \<times> int)" where
  "diag_loop a b x y =
     (if x < int (length a) \<and> y < int (length b) then
        (case index a x of Inl e \<Rightarrow> Inl e | Inr ax \<Rightarrow>
         case index b y of Inl e \<Rightarrow> Inl e | Inr by \<Rightarrow>
         case stringEqualIgnoreLF ax by of Inl e \<Rightarrow> Inl e
         | Inr same \<Rightarrow> if same then diag_loop a b (x + 1) (y + 1) else Inr (x, y))
      else Inr (x, y))"
  by pat_completeness auto
termination
  by (relation "measure (\<lambda>(a, b, x, y). nat (int (length a) - x))") auto

declare diag_loop.simps [simp del]

text \<open>
  The inner loop \<^verbatim>\<open>for k := -d; k <= d; k += 2\<close>.  The result carries the working
  vector and whether the function returned from inside the loop.
\<close>

function ses_k :: "string list \<Rightarrow> string list \<Rightarrow> int \<Rightarrow> int \<Rightarrow> int \<Rightarrow> int list
    \<Rightarrow> error + (bool \<times> int list)" where
  "ses_k a b offset d k V =
     (if k \<le> d then
        (case go_down V offset d k of Inl e \<Rightarrow> Inl e | Inr down \<Rightarrow>
         case (if down then index V (k + 1 + offset)
               else (case index V (k - 1 + offset) of Inl e \<Rightarrow> Inl e | Inr v \<Rightarrow> Inr (v + 1)))
         of Inl e \<Rightarrow> Inl e | Inr x0 \<Rightarrow>
         case diag_loop a b x0 (x0 - k) of Inl e \<Rightarrow> Inl e | Inr (x, y) \<Rightarrow>
         case store V (k + offset) x of Inl e \<Rightarrow> Inl e | Inr V' \<Rightarrow>
           if x = int (length a) \<and> y = int (length b) then Inr (True, V')
           else ses_k a b offset d (k + 2) V')
      else Inr (False, V))"
  by pat_completeness auto
termination
  by (relation "measure (\<lambda>(a, b, offset, d, k, V). nat (d - k + 1))") auto

declare ses_k.simps [simp del]

text \<open>
  The outer loop \<^verbatim>\<open>for d := 0; d <= N+M; d++\<close>.  \<^verbatim>\<open>copyV\<close> is a fresh copy of \<open>V\<close>,
  so the snapshot stored in the trace is the value of \<open>V\<close> at that moment.  Falling
  out of the loop returns \<^verbatim>\<open>nil, 0\<close>.
\<close>

function ses_d :: "string list \<Rightarrow> string list \<Rightarrow> int \<Rightarrow> int \<Rightarrow> int list \<Rightarrow> int list list
    \<Rightarrow> error + (int list list \<times> int)" where
  "ses_d a b offset d V trace =
     (if d \<le> int (length b) + int (length a) then
        (case ses_k a b offset d (- d) V of Inl e \<Rightarrow> Inl e | Inr (returned, V') \<Rightarrow>
         case store trace d V' of Inl e \<Rightarrow> Inl e | Inr trace' \<Rightarrow>
           if returned then Inr (trace', offset)
           else ses_d a b offset (d + 1) V' trace')
      else Inr ([], 0))"
  by pat_completeness auto
termination
  by (relation "measure (\<lambda>(a, b, offset, d, V, trace). nat (int (length b) + int (length a) - d + 1))")
     auto

declare ses_d.simps [simp del]

definition shortestEditSequence :: "string list \<Rightarrow> string list \<Rightarrow> error + (int list list \<times> int)" where
  "shortestEditSequence a b =
     (let M = int (length a); N = int (length b);
          V = replicate (nat (2 * (N + M) + 1)) (0::int);
          offset = N + M;
          trace = replicate (nat (N + M + 1)) []
      in ses_d a b offset 0 V trace)"

section \<open>Backtracking\<close>

text \<open>
  The loop \<^verbatim>\<open>for ; x > 0 && y > 0 && d > 0; d--\<close>; the result is the state in which the
  loop was left.
\<close>

function backtrack_loop :: "int list list \<Rightarrow> int \<Rightarrow> int \<Rightarrow> int \<Rightarrow> int \<Rightarrow> int list list
    \<Rightarrow> error + (int \<times> int \<times> int \<times> int list list)" where
  "backtrack_loop trace offset x y d snakes =
     (if x > 0 \<and> y > 0 \<and> d > 0 then
        (case index trace d of Inl e \<Rightarrow> Inl e | Inr V \<Rightarrow>
           if length V = 0 then backtrack_loop trace offset x y (d - 1) snakes
           else
            (case store snakes d [x, y] of Inl e \<Rightarrow> Inl e | Inr snakes' \<Rightarrow>
             case go_down V offset d (x - y) of Inl e \<Rightarrow> Inl e | Inr down \<Rightarrow>
             let kPrev = (if down then x - y + 1 else x - y - 1) in
             case index V (kPrev + offset) of Inl e \<Rightarrow> Inl e | Inr x' \<Rightarrow>
               backtrack_loop trace offset x' (x' - kPrev) (d - 1) snakes'))
      else Inr (x, y, d, snakes))"
  by pat_completeness auto
termination
  by (relation "measure (\<lambda>(trace, offset, x, y, d, snakes). nat d)") auto

declare backtrack_loop.simps [simp del]

definition backtrack :: "int list list \<Rightarrow> int \<Rightarrow> int \<Rightarrow> int \<Rightarrow> error + int list list" where
  "backtrack trace x y offset =
     (case backtrack_loop trace offset x y (int (length trace) - 1) (replicate (length trace) [])
      of Inl e \<Rightarrow> Inl e
      | Inr (x', y', d, snakes) \<Rightarrow>
          if x' < 0 \<or> y' < 0 then Inr snakes else store snakes d [x', y'])"

section \<open>Building the operations\<close>

text \<open>
  \<^verbatim>\<open>solution\<close> is an array of \<open>len(a)+len(b)\<close> pointers and \<open>i\<close> the number of entries
  written; the function returns \<^verbatim>\<open>solution[:i]\<close>.  The model keeps that prefix as a list
  (\<open>i\<close> is its length) and the array's size as \<open>cap\<close>: writing entry \<open>i\<close> panics when
  \<open>i\<close> is not below it.  Each \<^verbatim>\<open>*Op\<close> is freshly allocated and reachable from one place
  only, so an operation is a value; \<^verbatim>\<open>op == nil\<close> is \<open>None\<close>.
\<close>

definition add :: "string list \<Rightarrow> int \<Rightarrow> Op option \<Rightarrow> int \<Rightarrow> int \<Rightarrow> Op list \<Rightarrow> error + Op list" where
  "add b cap op i2 j2 solution =
     (case op of None \<Rightarrow> Inr solution
      | Some p \<Rightarrow>
         (case (if Kind p = Insert
                then (case slice b (J1 p) j2 of Inl e \<Rightarrow> Inl e
                      | Inr c \<Rightarrow> Inr (p\<lparr>I2 := i2, Content := c\<rparr>))
                else Inr (p\<lparr>I2 := i2\<rparr>))
          of Inl e \<Rightarrow> Inl e
          | Inr p' \<Rightarrow>
              if int (length solution) < cap then Inr (solution @ [p']) else Inl IndexOutOfRange))"

text \<open>
  The loop \<^verbatim>\<open>for snake[0]-snake[1] > x-y\<close>, with its \<^verbatim>\<open>break\<close> when \<open>x\<close> reaches \<open>M\<close>;
  \<open>k0\<close> is \<open>snake[0]-snake[1]\<close>.
\<close>

function delete_loop :: "int \<Rightarrow> int \<Rightarrow> int \<Rightarrow> int \<Rightarrow> Op option \<Rightarrow> int \<times> Op option" where
  "delete_loop k0 M x y op =
     (if k0 > x - y then
        (let op' = (case op of
                      None \<Rightarrow> Some \<lparr>Kind = Delete, Content = [], I1 = x, I2 = 0, J1 = y\<rparr>
                    | Some p \<Rightarrow> Some p)
         in if x + 1 = M then (x + 1, op') else delete_loop k0 M (x + 1) y op')
      else (x, op))"
  by pat_completeness auto
termination
  by (relation "measure (\<lambda>(k0, M, x, y, op). nat (k0 - (x - y)))") auto

declare delete_loop.simps [simp del]

text \<open>The loop \<^verbatim>\<open>for snake[0]-snake[1] < x-y\<close>.\<close>

function insert_loop :: "int \<Rightarrow> int \<Rightarrow> int \<Rightarrow> Op option \<Rightarrow> int \<times> Op option" where
  "insert_loop k0 x y op =
     (if k0 < x - y then
        insert_loop k0 x (y + 1)
          (case op of
             None \<Rightarrow> Some \<lparr>Kind = Insert, Content = [], I1 = x, I2 = 0, J1 = y\<rparr>
           | Some p \<Rightarrow> Some p)
      else (y, op))"
  by pat_completeness auto
termination
  by (relation "measure (\<lambda>(k0, x, y, op). nat (x - y - k0))") auto

declare insert_loop.simps [simp del]

text \<open>The loop \<^verbatim>\<open>for x < snake[0]\<close>.\<close>

function equal_loop :: "int \<Rightarrow> int \<Rightarrow> int \<Rightarrow> int \<times> int" where
  "equal_loop s0 x y = (if x < s0 then equal_loop s0 (x + 1) (y + 1) else (x, y))"
  by pat_completeness auto
termination
  by (relation "measure (\<lambda>(s0, x, y). nat (s0 - x))") auto

declare equal_loop.simps [simp del]

text \<open>
  The loop \<^verbatim>\<open>for _, snake := range snakes\<close>.  \<^verbatim>\<open>snake[0]\<close> and \<^verbatim>\<open>snake[1]\<close> are read
  only when \<open>len(snake) \<ge> 2\<close>.
\<close>

fun ops_loop :: "string list \<Rightarrow> int \<Rightarrow> int \<Rightarrow> int list list \<Rightarrow> int \<Rightarrow> int \<Rightarrow> Op list
    \<Rightarrow> error + Op list" where
  "ops_loop b M N [] x y solution = Inr solution"
| "ops_loop b M N (snake # rest) x y solution =
     (if length snake < 2 then ops_loop b M N rest x y solution
      else
        (let k0 = snake ! 0 - snake ! 1;
             (x1, op1) = delete_loop k0 M x y None
         in case add b (M + N) op1 x1 y solution of Inl e \<Rightarrow> Inl e | Inr solution1 \<Rightarrow>
            (let (y1, op2) = insert_loop k0 x1 y None
             in case add b (M + N) op2 x1 y1 solution1 of Inl e \<Rightarrow> Inl e | Inr solution2 \<Rightarrow>
                (let (x2, y2) = equal_loop (snake ! 0) x1 y1
                 in if x2 \<ge> M \<and> y2 \<ge> N then Inr solution2
                    else ops_loop b M N rest x2 y2 solution2))))"

definition Operations :: "string list \<Rightarrow> string list \<Rightarrow> error + Op list" where
  "Operations a b =
     (case shortestEditSequence a b of Inl e \<Rightarrow> Inl e | Inr (trace, offset) \<Rightarrow>
      case backtrack trace (int (length a)) (int (length b)) offset of Inl e \<Rightarrow> Inl e
      | Inr snakes \<Rightarrow>
          ops_loop b (int (length a)) (int (length b)) snakes 0 0 [])"

section \<open>Applying the operations\<close>

text \<open>
  The operations are values here, as \<^verbatim>\<open>Operations\<close> returns them: no entry of the list
  is a \<^verbatim>\<open>nil\<close> pointer.  The catch-up is
  \<^verbatim>\<open>if hi-lo > 0 { for _, c := range a[lo:hi] { b = append(b, c) } }\<close>.
\<close>

definition catch_up :: "string list \<Rightarrow> string list \<Rightarrow> int \<Rightarrow> int \<Rightarrow> error + string list" where
  "catch_up a b lo hi =
     (if hi - lo > 0 then
        (case slice a lo hi of Inl e \<Rightarrow> Inl e | Inr cs \<Rightarrow> Inr (b @ cs))
      else Inr b)"

fun apply_loop :: "string list \<Rightarrow> Op list \<Rightarrow> string list \<Rightarrow> int \<Rightarrow> error + (string list \<times> int)" where
  "apply_loop a [] b prevI2 = Inr (b, prevI2)"
| "apply_loop a (op # operations) b prevI2 =
     (case catch_up a b prevI2 (I1 op) of Inl e \<Rightarrow> Inl e
      | Inr b1 \<Rightarrow>
          apply_loop a operations
            (if Kind op = Equal \<or> Kind op = Insert then b1 @ Content op else b1) (I2 op))"


section \<open>Notions used in the statements\<close>

text \<open>
  What \<^verbatim>\<open>stringEqualIgnoreLF\<close> compares of a line: the line without its last byte,
  and without the byte before that when there is one and it is a carriage return.
  \<open>content_len\<close> is the value of \<^verbatim>\<open>la\<close> before the comparison (\<open>-1\<close> for the empty
  string).
\<close>

definition content_len :: "string \<Rightarrow> int" where
  "content_len a =
     (if int (length a) - 1 > 0 \<and> a ! nat (int (length a) - 2) = CHR 0x0D
      then int (length a) - 2 else int (length a) - 1)"

definition lineEq :: "string \<Rightarrow> string \<Rightarrow> bool" where
  "lineEq a b \<longleftrightarrow>
     content_len a = content_len b \<and>
     take (nat (content_len a)) a = take (nat (content_len a)) b"

text \<open>
  The edit graph of \<open>a\<close> and \<open>b\<close>: the cell \<open>(x, y)\<close> carries a diagonal edge when
  line \<open>x\<close> of \<open>a\<close> and line \<open>y\<close> of \<open>b\<close> exist and the comparer finds them equal.
\<close>

definition same_line :: "string list \<Rightarrow> string list \<Rightarrow> int \<Rightarrow> int \<Rightarrow> bool" where
  "same_line a b x y \<longleftrightarrow>
     0 \<le> x \<and> x < int (length a) \<and> 0 \<le> y \<and> y < int (length b) \<and> lineEq (a ! nat x) (b ! nat y)"

text \<open>Where the diagonal run of the forward search ends when started at \<open>(x, y)\<close>.\<close>

definition diag_end :: "string list \<Rightarrow> string list \<Rightarrow> int \<Rightarrow> int \<Rightarrow> int" where
  "diag_end a b x y = (case diag_loop a b x y of Inl e \<Rightarrow> x | Inr (x', y') \<Rightarrow> x')"

text \<open>
  The \<open>x\<close> from which diagonal \<open>k\<close> is extended at depth \<open>d\<close>, given the reach of the
  previous depth on the neighbouring diagonals: the selection rule of the forward
  search.
\<close>

definition start_x :: "(int \<Rightarrow> int) \<Rightarrow> int \<Rightarrow> int \<Rightarrow> int" where
  "start_x prev d k =
     (if k = - d \<or> (k \<noteq> d \<and> prev (k - 1) < prev (k + 1)) then prev (k + 1) else prev (k - 1) + 1)"

text \<open>
  The value the forward search stores for diagonal \<open>k\<close> at depth \<open>d\<close>, as a function of
  \<open>d\<close> and \<open>k\<close> alone (at depth 0 the neighbouring entries still hold their initial 0).
\<close>

fun fr :: "string list \<Rightarrow> string list \<Rightarrow> nat \<Rightarrow> int \<Rightarrow> int" where
  "fr a b 0 k = (let x0 = start_x (\<lambda>k. 0) 0 k in diag_end a b x0 (x0 - k))"
| "fr a b (Suc d) k = (let x0 = start_x (fr a b d) (int (Suc d)) k in diag_end a b x0 (x0 - k))"

text \<open>The entries the search reads at depth \<open>d\<close>: those written at depth \<open>d - 1\<close>.\<close>

definition prevf :: "string list \<Rightarrow> string list \<Rightarrow> nat \<Rightarrow> int \<Rightarrow> int" where
  "prevf a b d = (case d of 0 \<Rightarrow> (\<lambda>k. 0) | Suc d' \<Rightarrow> fr a b d')"

text \<open>The diagonals visited at depth \<open>d\<close>: \<open>-d, -d+2, \<dots>, d\<close>.\<close>

definition valid :: "nat \<Rightarrow> int \<Rightarrow> bool" where
  "valid d k \<longleftrightarrow> - int d \<le> k \<and> k \<le> int d \<and> even (k + int d)"

text \<open>
  Paths in the edit graph, which extends beyond the two sequences by cells that never
  match: \<open>reach a b d x y\<close> says that \<open>(x, y)\<close> is reached from the origin by a path with
  exactly \<open>d\<close> horizontal (delete) and vertical (insert) steps, diagonal steps being
  free.
\<close>

inductive reach :: "string list \<Rightarrow> string list \<Rightarrow> nat \<Rightarrow> int \<Rightarrow> int \<Rightarrow> bool"
  for a b where
  origin: "reach a b 0 0 0"
| keep: "reach a b d x y \<Longrightarrow> same_line a b x y \<Longrightarrow> reach a b d (x + 1) (y + 1)"
| del: "reach a b d x y \<Longrightarrow> reach a b (Suc d) (x + 1) y"
| ins: "reach a b d x y \<Longrightarrow> reach a b (Suc d) x (y + 1)"

text \<open>The least number of deletions and insertions on a path to \<open>(M, N)\<close>.\<close>

definition Dmin :: "string list \<Rightarrow> string list \<Rightarrow> nat" where
  "Dmin a b = (LEAST d. reach a b d (int (length a)) (int (length b)))"

text \<open>The entry of the working vector for diagonal \<open>k\<close>.\<close>

definition rd :: "int list \<Rightarrow> int \<Rightarrow> int \<Rightarrow> int" where
  "rd V off k = V ! nat (k + off)"

text \<open>The diagonals whose entries depth \<open>d\<close> reads (at depth 0, the initial entry of diagonal 1).\<close>

definition pvalid :: "nat \<Rightarrow> int \<Rightarrow> bool" where
  "pvalid d k \<longleftrightarrow> (case d of 0 \<Rightarrow> k = 1 | Suc d' \<Rightarrow> valid d' k)"

text \<open>The working vector holds the values of the previous depth.\<close>

definition prev_ok :: "string list \<Rightarrow> string list \<Rightarrow> int \<Rightarrow> nat \<Rightarrow> int list \<Rightarrow> bool" where
  "prev_ok a b off d V \<longleftrightarrow>
     int (length V) = 2 * off + 1 \<and> (\<forall>k. pvalid d k \<longrightarrow> rd V off k = prevf a b d k)"

text \<open>The working vector holds the values of depth \<open>d\<close> on the diagonals below \<open>k\<close>.\<close>

definition cur_ok :: "string list \<Rightarrow> string list \<Rightarrow> int \<Rightarrow> nat \<Rightarrow> int \<Rightarrow> int list \<Rightarrow> bool" where
  "cur_ok a b off d k V \<longleftrightarrow> (\<forall>k'. valid d k' \<and> k' < k \<longrightarrow> rd V off k' = fr a b d k')"

text \<open>The search returns at depth \<open>d\<close>, diagonal \<open>k\<close>.\<close>

definition goal :: "string list \<Rightarrow> string list \<Rightarrow> nat \<Rightarrow> int \<Rightarrow> bool" where
  "goal a b d k \<longleftrightarrow> fr a b d k = int (length a) \<and> fr a b d k - k = int (length b)"

text \<open>
  The trace the search returns: a snapshot for every depth up to \<open>Dmin\<close>, each holding
  the values of the depth before it, and \<^verbatim>\<open>nil\<close> above.
\<close>

definition good_trace :: "string list \<Rightarrow> string list \<Rightarrow> int list list \<Rightarrow> bool" where
  "good_trace a b trace \<longleftrightarrow>
     length trace = length a + length b + 1 \<and>
     (\<forall>d \<le> Dmin a b. prev_ok a b (int (length b) + int (length a)) d (trace ! d)) \<and>
     (\<forall>d. Dmin a b < d \<and> d \<le> length a + length b \<longrightarrow> trace ! d = [])"

text \<open>
  From \<open>(x, y)\<close> the snake \<open>(s0, s1)\<close> is reached by a run of deletions or a run of
  insertions (ending at \<open>(x1, y1)\<close> on the diagonal of the snake) followed by equal
  lines.
\<close>

definition seg_ok :: "string list \<Rightarrow> string list \<Rightarrow> int \<Rightarrow> int \<Rightarrow> int \<Rightarrow> int \<Rightarrow> bool" where
  "seg_ok a b x y s0 s1 \<longleftrightarrow>
     0 \<le> x \<and> 0 \<le> y \<and>
     (\<exists>x1 y1. x \<le> x1 \<and> y \<le> y1 \<and> (x1 = x \<or> y1 = y) \<and> x1 - y1 = s0 - s1 \<and> x1 \<le> s0 \<and>
        x1 \<le> int (length a) \<and> y1 \<le> int (length b) \<and>
        (\<forall>i. x1 \<le> i \<and> i < s0 \<longrightarrow> same_line a b i (i - (s0 - s1))))"

text \<open>A list of snakes leads from \<open>(x, y)\<close> to \<open>(M, N)\<close>.\<close>

fun path_ok :: "string list \<Rightarrow> string list \<Rightarrow> int \<Rightarrow> int \<Rightarrow> (int \<times> int) list \<Rightarrow> bool" where
  "path_ok a b x y [] \<longleftrightarrow> x = int (length a) \<and> y = int (length b)"
| "path_ok a b x y (s # ps) \<longleftrightarrow> seg_ok a b x y (fst s) (snd s) \<and> path_ok a b (fst s) (snd s) ps"

text \<open>
  The number of deletions and insertions on the way along a list of snakes: the
  distance between the diagonals of consecutive positions.
\<close>

fun path_cost :: "int \<Rightarrow> int \<Rightarrow> (int \<times> int) list \<Rightarrow> int" where
  "path_cost x y [] = 0"
| "path_cost x y (s # ps) = \<bar>fst s - snd s - (x - y)\<bar> + path_cost (fst s) (snd s) ps"

text \<open>The snakes that the loop of \<^verbatim>\<open>Operations\<close> does not skip, as points.\<close>

definition pts_of :: "int list list \<Rightarrow> (int \<times> int) list" where
  "pts_of snakes = map (\<lambda>s. (s ! 0, s ! 1)) (filter (\<lambda>s. 2 \<le> length s) snakes)"

text \<open>The position of the walk of \<^verbatim>\<open>backtrack\<close> when its loop is at depth \<open>d\<close>.\<close>

definition on_path :: "string list \<Rightarrow> string list \<Rightarrow> nat \<Rightarrow> int \<Rightarrow> int \<Rightarrow> bool" where
  "on_path a b d x y \<longleftrightarrow>
     (Dmin a b < d \<and> x = int (length a) \<and> y = int (length b)) \<or>
     (d \<le> Dmin a b \<and> valid d (x - y) \<and> x = fr a b d (x - y))"

text \<open>The operation as \<^verbatim>\<open>Operations\<close> allocates it, before \<^verbatim>\<open>add\<close> completes it.\<close>

definition new_op :: "OpKind \<Rightarrow> int \<Rightarrow> int \<Rightarrow> Op" where
  "new_op kind x y = \<lparr>Kind = kind, Content = [], I1 = x, I2 = 0, J1 = y\<rparr>"

text \<open>The elements \<open>lo, \<dots>, hi - 1\<close> of a list.\<close>

definition part :: "'a list \<Rightarrow> int \<Rightarrow> int \<Rightarrow> 'a list" where
  "part xs lo hi = take (nat (hi - lo)) (drop (nat lo) xs)"

text \<open>
  The number of line-operations of an operation: the lines a Delete removes, the lines
  an Insert carries; and their total over an operation list.
\<close>

definition op_lines :: "Op \<Rightarrow> int" where
  "op_lines p = (case Kind p of Delete \<Rightarrow> I2 p - I1 p | Insert \<Rightarrow> int (length (Content p)) | Equal \<Rightarrow> 0)"

definition ops_cost :: "Op list \<Rightarrow> int" where
  "ops_cost ops = sum_list (map op_lines ops)"

text \<open>
  The operations lie one after the other in the source: each starts where the one
  before it ends or later, none ends before it starts, and all end at \<open>x\<close> or before.
\<close>

definition ops_shape :: "Op list \<Rightarrow> int \<Rightarrow> bool" where
  "ops_shape sol x \<longleftrightarrow>
     sorted_wrt (\<lambda>p q. I2 p \<le> I1 q) sol \<and> list_all (\<lambda>p. 0 \<le> I1 p \<and> I1 p \<le> I2 p \<and> I2 p \<le> x) sol"

text \<open>
  The operations built so far, applied to \<open>a\<close>, give (with the lines of \<open>a\<close> up to \<open>x\<close>
  copied through) the first \<open>y\<close> lines of \<open>b\<close> up to the comparer; there are at most
  \<open>x + y\<close> of them; and they lie in order before \<open>x\<close>.
\<close>

definition ops_inv :: "string list \<Rightarrow> string list \<Rightarrow> Op list \<Rightarrow> int \<Rightarrow> int \<Rightarrow> bool" where
  "ops_inv a b sol x y \<longleftrightarrow>
     (\<exists>bs p. apply_loop a sol [] 0 = Inr (bs, p) \<and> 0 \<le> p \<and> p \<le> x \<and>
             list_all2 lineEq (bs @ part a p x) (part b 0 y)) \<and>
     int (length sol) \<le> x + y \<and> ops_shape sol x"

text \<open>
  Edit scripts, independently of the search: \<open>edits xs ys n\<close> says that \<open>xs\<close> is turned
  into \<open>ys\<close> by deleting and inserting \<open>n\<close> lines in all, keeping a line only where the
  comparer finds the two lines equal.  The line-level edit distance is the least such
  \<open>n\<close>.
\<close>

inductive edits :: "string list \<Rightarrow> string list \<Rightarrow> nat \<Rightarrow> bool" where
  e_nil: "edits [] [] 0"
| e_del: "edits xs ys n \<Longrightarrow> edits (x # xs) ys (Suc n)"
| e_ins: "edits xs ys n \<Longrightarrow> edits xs (y # ys) (Suc n)"
| e_keep: "edits xs ys n \<Longrightarrow> lineEq x y \<Longrightarrow> edits (x # xs) (y # ys) n"

section \<open>The line comparer: properties\<close>

lemma index_in_range: "0 \<le> i \<Longrightarrow> i < int (length xs) \<Longrightarrow> index xs i = Inr (xs ! nat i)"
  by (simp add: index_def)

lemma eq_loop_nth:
  "0 \<le> i \<Longrightarrow> la \<le> int (length a) \<Longrightarrow> la \<le> int (length b) \<Longrightarrow>
   eq_loop a b la i = Inr (\<forall>j. i \<le> j \<and> j < la \<longrightarrow> a ! nat j = b ! nat j)"
proof (induction a b la i rule: eq_loop.induct)
  case (1 a b la i)
  show ?case
  proof (cases "i < la")
    case False
    then show ?thesis by (subst eq_loop.simps) auto
  next
    case True
    with "1.prems" have ia: "index a i = Inr (a ! nat i)" and ib: "index b i = Inr (b ! nat i)"
      by (simp_all add: index_in_range)
    show ?thesis
    proof (cases "a ! nat i = b ! nat i")
      case False
      with True ia ib "1.prems" show ?thesis
        by (subst eq_loop.simps) auto
    next
      case same: True
      have "eq_loop a b la (i + 1) = Inr (\<forall>j. i + 1 \<le> j \<and> j < la \<longrightarrow> a ! nat j = b ! nat j)"
        using "1.IH"[OF True ia ib] same "1.prems" by simp
      moreover have "(\<forall>j. i + 1 \<le> j \<and> j < la \<longrightarrow> a ! nat j = b ! nat j) \<longleftrightarrow>
                     (\<forall>j. i \<le> j \<and> j < la \<longrightarrow> a ! nat j = b ! nat j)"
      proof
        assume h: "\<forall>j. i + 1 \<le> j \<and> j < la \<longrightarrow> a ! nat j = b ! nat j"
        show "\<forall>j. i \<le> j \<and> j < la \<longrightarrow> a ! nat j = b ! nat j"
        proof (intro allI impI)
          fix j assume j: "i \<le> j \<and> j < la"
          show "a ! nat j = b ! nat j"
          proof (cases "j = i")
            case True
            with same show ?thesis by simp
          next
            case False
            with j have "i + 1 \<le> j \<and> j < la" by arith
            with h show ?thesis by blast
          qed
        qed
      next
        assume h: "\<forall>j. i \<le> j \<and> j < la \<longrightarrow> a ! nat j = b ! nat j"
        show "\<forall>j. i + 1 \<le> j \<and> j < la \<longrightarrow> a ! nat j = b ! nat j"
        proof (intro allI impI)
          fix j assume "i + 1 \<le> j \<and> j < la"
          then have "i \<le> j \<and> j < la" by arith
          with h show "a ! nat j = b ! nat j" by blast
        qed
      qed
      ultimately show ?thesis using True ia ib same
        by (subst eq_loop.simps) simp
    qed
  qed
qed

lemma take_eq_nth:
  "0 \<le> la \<Longrightarrow> la \<le> int (length a) \<Longrightarrow> la \<le> int (length b) \<Longrightarrow>
   (\<forall>j. 0 \<le> j \<and> j < la \<longrightarrow> a ! nat j = b ! nat j) \<longleftrightarrow> take (nat la) a = take (nat la) b"
proof
  assume h: "0 \<le> la" "la \<le> int (length a)" "la \<le> int (length b)"
    and all: "\<forall>j. 0 \<le> j \<and> j < la \<longrightarrow> a ! nat j = b ! nat j"
  show "take (nat la) a = take (nat la) b"
  proof (rule nth_equalityI)
    show "length (take (nat la) a) = length (take (nat la) b)" using h by simp
  next
    fix n assume "n < length (take (nat la) a)"
    then have n: "n < nat la" by simp
    then have "0 \<le> int n \<and> int n < la" by arith
    with all have "a ! nat (int n) = b ! nat (int n)" by blast
    with n show "take (nat la) a ! n = take (nat la) b ! n" by simp
  qed
next
  assume h: "0 \<le> la" "la \<le> int (length a)" "la \<le> int (length b)"
    and eq: "take (nat la) a = take (nat la) b"
  show "\<forall>j. 0 \<le> j \<and> j < la \<longrightarrow> a ! nat j = b ! nat j"
  proof (intro allI impI)
    fix j assume j: "0 \<le> j \<and> j < la"
    then have "nat j < nat la" by simp
    then have "take (nat la) a ! nat j = a ! nat j" "take (nat la) b ! nat j = b ! nat j" by simp_all
    with eq show "a ! nat j = b ! nat j" by simp
  qed
qed

lemma strip_cr_eq: "strip_cr a (int (length a) - 1) = Inr (content_len a)"
  by (auto simp: strip_cr_def content_len_def index_def split: sum.splits)

lemma content_len_bounds: "- 1 \<le> content_len a" "content_len a \<le> int (length a)" "content_len a < 0 \<Longrightarrow> a = []"
  by (auto simp: content_len_def split: if_splits)

lemma stringEqualIgnoreLF_lineEq: "stringEqualIgnoreLF a b = Inr (lineEq a b)"
proof (cases "content_len a = content_len b")
  case False
  then show ?thesis by (simp add: stringEqualIgnoreLF_def strip_cr_eq lineEq_def)
next
  case True
  show ?thesis
  proof (cases "0 \<le> content_len a")
    case nn: True
    have "eq_loop a b (content_len a) 0 = Inr (take (nat (content_len a)) a = take (nat (content_len a)) b)"
      using eq_loop_nth[of 0 "content_len a" a b] take_eq_nth[of "content_len a" a b]
        content_len_bounds(2)[of a] content_len_bounds(2)[of b] True nn by simp
    with True show ?thesis by (simp add: stringEqualIgnoreLF_def strip_cr_eq lineEq_def)
  next
    case False
    then have "eq_loop a b (content_len a) 0 = Inr True" by (subst eq_loop.simps) simp
    with True False show ?thesis by (simp add: stringEqualIgnoreLF_def strip_cr_eq lineEq_def)
  qed
qed

lemma content_len_snoc: "content_len (s @ [c]) = (if s \<noteq> [] \<and> last s = CHR 0x0D then int (length s) - 1 else int (length s))"
  by (cases s rule: rev_cases) (auto simp: content_len_def nth_append)

lemma content_len_snoc_le: "nat (content_len (s @ [c])) \<le> length s"
  by (simp add: content_len_snoc) arith

lemma lineEq_snoc:
  "lineEq (s @ [c]) (t @ [d]) \<longleftrightarrow>
     content_len (s @ [c]) = content_len (t @ [d]) \<and>
     take (nat (content_len (s @ [c]))) s = take (nat (content_len (t @ [d]))) t"
proof -
  have "take (nat (content_len (s @ [c]))) (s @ [c]) = take (nat (content_len (s @ [c]))) s"
    using content_len_snoc_le[of s c] by simp
  moreover have "take (nat (content_len (t @ [d]))) (t @ [d]) = take (nat (content_len (t @ [d]))) t"
    using content_len_snoc_le[of t d] by simp
  ultimately show ?thesis unfolding lineEq_def by metis
qed

text \<open>
  Claim C10.  Two strings of length one always compare equal, whatever their bytes;
  and the last byte of a non-empty string never takes part in the comparison: the
  result is the same when the last byte of either string is replaced by any other
  byte (so in particular for strings that do not end in a line terminator).
\<close>

theorem comparer_ignores_last_char:
  "(length a = 1 \<and> length b = 1 \<longrightarrow> stringEqualIgnoreLF a b = Inr True) \<and>
   stringEqualIgnoreLF (s @ [c]) (t @ [d]) = stringEqualIgnoreLF (s @ [c']) (t @ [d'])"
proof
  show "length a = 1 \<and> length b = 1 \<longrightarrow> stringEqualIgnoreLF a b = Inr True"
    by (auto simp: stringEqualIgnoreLF_lineEq lineEq_def content_len_def)
next
  have "content_len (s @ [c]) = content_len (s @ [c'])" "content_len (t @ [d]) = content_len (t @ [d'])"
    by (simp_all add: content_len_snoc)
  then have "lineEq (s @ [c]) (t @ [d]) = lineEq (s @ [c']) (t @ [d'])"
    by (simp add: lineEq_snoc)
  then show "stringEqualIgnoreLF (s @ [c]) (t @ [d]) = stringEqualIgnoreLF (s @ [c']) (t @ [d'])"
    by (simp add: stringEqualIgnoreLF_lineEq)
qed

theorem comparer_ignores_last_char_witness:
  "length ''a'' = 1 \<and> length ''b'' = 1 \<and> stringEqualIgnoreLF ''a'' ''b'' = Inr True \<and>
   stringEqualIgnoreLF ''xa'' ''xb'' = stringEqualIgnoreLF ''xc'' ''xd''"
  using comparer_ignores_last_char [of "''a''" "''b''" "''x''" "CHR ''a''" "''x''" "CHR ''b''" "CHR ''c''" "CHR ''d''"]
  by simp

text \<open>
  Claim C3.  The comparer does not decide equality of the contents after stripping one
  line terminator: the lines \<open>a\<close> and \<open>b\<close>, neither of which ends in a terminator,
  compare equal although their contents differ; and the content \<open>x\<close> followed by a
  carriage return, once with the two-byte and once with the one-byte terminator,
  compares unequal.
\<close>

theorem comparer_equates_distinct_lines:
  "stringEqualIgnoreLF ''a'' ''b'' = Inr True \<and>
   stringEqualIgnoreLF [CHR ''x'', CHR 0x0D, CHR 0x0D, CHR 0x0A] [CHR ''x'', CHR 0x0D, CHR 0x0A] = Inr False"
  by code_simp

section \<open>SplitLines: properties\<close>

lemma SplitAfter_nl_nonempty: "SplitAfter_nl t \<noteq> []"
  by (induction t) (auto split: list.splits)

lemma concat_SplitAfter_nl: "concat (SplitAfter_nl t) = t"
  by (induction t) (auto split: list.splits)

lemma SplitAfter_nl_last: "CHR 0x0A \<notin> set (last (SplitAfter_nl t))"
  by (induction t) (auto split: list.splits simp: SplitAfter_nl_nonempty)

lemma SplitAfter_nl_butlast:
  "l \<in> set (butlast (SplitAfter_nl t)) \<Longrightarrow> l \<noteq> [] \<and> last l = CHR 0x0A \<and> CHR 0x0A \<notin> set (butlast l)"
proof (induction t arbitrary: l)
  case Nil
  then show ?case by simp
next
  case (Cons c cs)
  show ?case
  proof (cases "c = CHR 0x0A")
    case True
    with Cons show ?thesis by (auto simp: SplitAfter_nl_nonempty)
  next
    case False
    obtain p ps where ps: "SplitAfter_nl cs = p # ps"
      using SplitAfter_nl_nonempty[of cs] by (cases "SplitAfter_nl cs") auto
    show ?thesis
    proof (cases ps)
      case Nil
      with Cons.prems False ps show ?thesis by simp
    next
      case (Cons q qs)
      with Cons.prems False ps have "l = c # p \<or> l \<in> set (butlast ps)" by auto
      moreover have "p \<in> set (butlast (SplitAfter_nl cs))" using ps Cons by simp
      ultimately show ?thesis using Cons.IH[of p] Cons.IH[of l] ps Cons False by auto
    qed
  qed
qed

lemma concat_butlast_empty: "xs \<noteq> [] \<Longrightarrow> last xs = [] \<Longrightarrow> concat (butlast xs) = concat xs"
  by (induction xs) auto

lemma set_butlast_last: "xs \<noteq> [] \<Longrightarrow> set xs = set (butlast xs) \<union> {last xs}"
  by (cases xs rule: rev_cases) auto

lemma SplitLines_eq:
  "SplitLines t = Inr (if last (SplitAfter_nl t) = [] then butlast (SplitAfter_nl t) else SplitAfter_nl t)"
proof -
  let ?ls = "SplitAfter_nl t"
  have ne: "?ls \<noteq> []" by (rule SplitAfter_nl_nonempty)
  have n: "nat (int (length ?ls) - 1) = length ?ls - 1" by arith
  have "index ?ls (int (length ?ls) - 1) = Inr (last ?ls)"
    using ne by (simp add: index_def last_conv_nth n)
  moreover have "slice ?ls 0 (int (length ?ls) - 1) = Inr (butlast ?ls)"
    using ne by (simp add: slice_def butlast_conv_take n)
  ultimately show ?thesis by (simp add: SplitLines_def Let_def)
qed

text \<open>
  Claim C7.  \<^verbatim>\<open>SplitLines\<close> returns, for every text, the lines of the text in order:
  their concatenation is the text, no line is empty (a final empty fragment is
  dropped), a line feed occurs in a line only as its last byte, and every line but
  the last ends in a line feed.  The two examples of the specification are included.
\<close>

theorem SplitLines_lines:
  "(\<exists>ls. SplitLines text = Inr ls \<and> concat ls = text \<and>
      (\<forall>l\<in>set ls. l \<noteq> [] \<and> CHR 0x0A \<notin> set (butlast l)) \<and>
      (\<forall>l\<in>set (butlast ls). last l = CHR 0x0A)) \<and>
   SplitLines ''a\<newline>b\<newline>'' = Inr [''a\<newline>'', ''b\<newline>''] \<and>
   SplitLines ''a\<newline>b'' = Inr [''a\<newline>'', ''b'']"
proof (intro conjI)
  let ?ps = "SplitAfter_nl text"
  have ne: "?ps \<noteq> []" by (rule SplitAfter_nl_nonempty)
  have bl: "\<And>l. l \<in> set (butlast ?ps) \<Longrightarrow> l \<noteq> [] \<and> last l = CHR 0x0A \<and> CHR 0x0A \<notin> set (butlast l)"
    by (rule SplitAfter_nl_butlast)
  have cc: "concat ?ps = text" by (rule concat_SplitAfter_nl)
  show "\<exists>ls. SplitLines text = Inr ls \<and> concat ls = text \<and>
      (\<forall>l\<in>set ls. l \<noteq> [] \<and> CHR 0x0A \<notin> set (butlast l)) \<and>
      (\<forall>l\<in>set (butlast ls). last l = CHR 0x0A)"
  proof (cases "last ?ps = []")
    case True
    have c1: "concat (butlast ?ps) = text" using concat_butlast_empty[OF ne True] cc by simp
    have "\<forall>l\<in>set (butlast (butlast ?ps)). last l = CHR 0x0A"
      using bl by (meson in_set_butlastD)
    with True c1 bl show ?thesis by (auto simp: SplitLines_eq)
  next
    case False
    have "set ?ps = set (butlast ?ps) \<union> {last ?ps}"
      using ne by (rule set_butlast_last)
    moreover have "CHR 0x0A \<notin> set (butlast (last ?ps))"
      using SplitAfter_nl_last[of "text"] by (meson in_set_butlastD)
    ultimately show ?thesis using False cc bl by (auto simp: SplitLines_eq)
  qed
next
  show "SplitLines ''a\<newline>b\<newline>'' = Inr [''a\<newline>'', ''b\<newline>'']" by code_simp
next
  show "SplitLines ''a\<newline>b'' = Inr [''a\<newline>'', ''b'']" by code_simp
qed

theorem SplitLines_lines_witness:
  "SplitLines ''a\<newline>\<newline>b'' = Inr [''a\<newline>'', ''\<newline>'', ''b''] \<and>
   (\<exists>ls. SplitLines ''a\<newline>\<newline>b'' = Inr ls \<and> concat ls = ''a\<newline>\<newline>b'' \<and>
      (\<forall>l\<in>set ls. l \<noteq> [] \<and> CHR 0x0A \<notin> set (butlast l)) \<and>
      (\<forall>l\<in>set (butlast ls). last l = CHR 0x0A))"
proof
  show "SplitLines ''a\<newline>\<newline>b'' = Inr [''a\<newline>'', ''\<newline>'', ''b'']" by code_simp
next
  show "\<exists>ls. SplitLines ''a\<newline>\<newline>b'' = Inr ls \<and> concat ls = ''a\<newline>\<newline>b'' \<and>
      (\<forall>l\<in>set ls. l \<noteq> [] \<and> CHR 0x0A \<notin> set (butlast l)) \<and>
      (\<forall>l\<in>set (butlast ls). last l = CHR 0x0A)"
    using SplitLines_lines [of "''a\<newline>\<newline>b''"] by blast
qed

text \<open>
  Claim C9.  Concatenating the elements of \<^verbatim>\<open>SplitLines(text)\<close> in order gives the text
  back, and \<^verbatim>\<open>SplitLines\<close> returns the empty sequence on the empty string.
\<close>

theorem SplitLines_concat:
  "(\<exists>ls. SplitLines text = Inr ls \<and> concat ls = text) \<and> SplitLines [] = Inr []"
proof
  show "\<exists>ls. SplitLines text = Inr ls \<and> concat ls = text"
    using concat_SplitAfter_nl[of "text"] concat_butlast_empty[OF SplitAfter_nl_nonempty, of "text"]
    by (auto simp: SplitLines_eq)
next
  show "SplitLines [] = Inr []" by code_simp
qed

section \<open>Operations on concrete inputs\<close>

text \<open>
  Claim C6.  For \<open>A = ["a\n", "b\n", "c\n"]\<close> and \<open>B = ["a\n", "x\n", "c\n"]\<close>,
  \<^verbatim>\<open>Operations\<close> returns exactly two operations: a Delete with \<open>I1 = 1\<close> and \<open>I2 = 2\<close>,
  then an Insert with \<open>I1 = 2\<close>, \<open>J1 = 1\<close> and the content \<open>["x\n"]\<close>.
\<close>

theorem Operations_example:
  "Operations [''a\<newline>'', ''b\<newline>'', ''c\<newline>''] [''a\<newline>'', ''x\<newline>'', ''c\<newline>''] =
     Inr [\<lparr>Kind = Delete, Content = [], I1 = 1, I2 = 2, J1 = 1\<rparr>,
          \<lparr>Kind = Insert, Content = [''x\<newline>''], I1 = 2, I2 = 2, J1 = 1\<rparr>]"
  by code_simp

section \<open>The diagonal runs and the values of the search\<close>

lemma diag_loop_run:
  "0 \<le> x \<Longrightarrow> 0 \<le> y \<Longrightarrow>
   \<exists>x'. diag_loop a b x y = Inr (x', y + (x' - x)) \<and> x \<le> x' \<and>
        (\<forall>i. x \<le> i \<and> i < x' \<longrightarrow> same_line a b i (y + (i - x))) \<and>
        \<not> same_line a b x' (y + (x' - x))"
proof (induction a b x y rule: diag_loop.induct)
  case (1 a b x y)
  show ?case
  proof (cases "x < int (length a) \<and> y < int (length b)")
    case False
    then have "diag_loop a b x y = Inr (x, y)" by (subst diag_loop.simps) auto
    moreover from False have "\<not> same_line a b x y" by (auto simp: same_line_def)
    ultimately show ?thesis by (intro exI[of _ x]) auto
  next
    case True
    with "1.prems" have ia: "index a x = Inr (a ! nat x)" and ib: "index b y = Inr (b ! nat y)"
      by (simp_all add: index_in_range)
    have cmp: "stringEqualIgnoreLF (a ! nat x) (b ! nat y) = Inr (lineEq (a ! nat x) (b ! nat y))"
      by (rule stringEqualIgnoreLF_lineEq)
    show ?thesis
    proof (cases "lineEq (a ! nat x) (b ! nat y)")
      case False
      then have "diag_loop a b x y = Inr (x, y)"
        using True ia ib cmp by (subst diag_loop.simps) simp
      moreover from False have "\<not> same_line a b x y" by (simp add: same_line_def)
      ultimately show ?thesis by (intro exI[of _ x]) auto
    next
      case eq: True
      have step: "diag_loop a b x y = diag_loop a b (x + 1) (y + 1)"
        using True ia ib cmp eq by (subst diag_loop.simps) simp
      have here: "same_line a b x y" using True "1.prems" eq by (simp add: same_line_def)
      from "1.IH"[OF True ia ib cmp eq] "1.prems"
      obtain x' where r: "diag_loop a b (x + 1) (y + 1) = Inr (x', y + 1 + (x' - (x + 1)))"
        and le: "x + 1 \<le> x'"
        and cells: "\<forall>i. x + 1 \<le> i \<and> i < x' \<longrightarrow> same_line a b i (y + 1 + (i - (x + 1)))"
        and stop: "\<not> same_line a b x' (y + 1 + (x' - (x + 1)))"
        by auto
      have "\<forall>i. x \<le> i \<and> i < x' \<longrightarrow> same_line a b i (y + (i - x))"
      proof (intro allI impI)
        fix i assume i: "x \<le> i \<and> i < x'"
        show "same_line a b i (y + (i - x))"
        proof (cases "i = x")
          case True
          with here show ?thesis by simp
        next
          case False
          with i have "x + 1 \<le> i \<and> i < x'" by arith
          with cells have "same_line a b i (y + 1 + (i - (x + 1)))" by blast
          moreover have "y + 1 + (i - (x + 1)) = y + (i - x)" by arith
          ultimately show ?thesis by simp
        qed
      qed
      moreover have "y + 1 + (x' - (x + 1)) = y + (x' - x)" by arith
      ultimately show ?thesis using step r le stop by (intro exI[of _ x']) simp
    qed
  qed
qed

lemma diag_loop_eq:
  assumes "0 \<le> x" "0 \<le> y"
  shows "diag_loop a b x y = Inr (diag_end a b x y, y + (diag_end a b x y - x))"
  using diag_loop_run[OF assms, of a b] by (auto simp: diag_end_def)

lemma diag_end_ge:
  assumes "0 \<le> x" "0 \<le> y"
  shows "x \<le> diag_end a b x y"
  using diag_loop_run[OF assms, of a b] by (auto simp: diag_end_def)

lemma diag_end_cells:
  assumes "0 \<le> x" "0 \<le> y" "x \<le> i" "i < diag_end a b x y"
  shows "same_line a b i (y + (i - x))"
  using diag_loop_run[OF assms(1,2), of a b] assms(3,4) by (auto simp: diag_end_def)

lemma diag_end_stop:
  assumes "0 \<le> x" "0 \<le> y"
  shows "\<not> same_line a b (diag_end a b x y) (y + (diag_end a b x y - x))"
  using diag_loop_run[OF assms, of a b] by (auto simp: diag_end_def)

lemma fr_eq: "fr a b d k = (let x0 = start_x (prevf a b d) (int d) k in diag_end a b x0 (x0 - k))"
  by (cases d) (simp_all add: prevf_def)

lemma valid_Suc_down: "valid (Suc d) k \<Longrightarrow> k \<noteq> int (Suc d) \<Longrightarrow> valid d (k + 1)"
  unfolding valid_def by presburger

lemma valid_Suc_right: "valid (Suc d) k \<Longrightarrow> k \<noteq> - int (Suc d) \<Longrightarrow> valid d (k - 1)"
  unfolding valid_def by presburger

lemma valid_0: "valid 0 k \<longleftrightarrow> k = 0"
  by (auto simp: valid_def)

lemma start_x_cases:
  "start_x prev d k = prev (k + 1) \<and> (k = - d \<or> k \<noteq> d) \<or>
   start_x prev d k = prev (k - 1) + 1 \<and> k \<noteq> - d"
  by (auto simp: start_x_def)

lemma start_fr_bounds:
  "valid d k \<Longrightarrow>
     0 \<le> start_x (prevf a b d) (int d) k \<and> k \<le> start_x (prevf a b d) (int d) k \<and>
     0 \<le> fr a b d k \<and> k \<le> fr a b d k"
proof (induction d arbitrary: k)
  case 0
  then have k: "k = 0" by (simp add: valid_0)
  have c: "start_x (prevf a b 0) (int 0) k = 0" using k by (simp add: start_x_def prevf_def)
  have "0 \<le> diag_end a b 0 0" by (rule diag_end_ge) simp_all
  then show ?case using c k by (simp add: fr_eq Let_def)
next
  case (Suc d)
  let ?c = "start_x (prevf a b (Suc d)) (int (Suc d)) k"
  have pf: "prevf a b (Suc d) = fr a b d" by (simp add: prevf_def)
  have cb: "0 \<le> ?c \<and> k \<le> ?c"
  proof -
    from start_x_cases[of "fr a b d" "int (Suc d)" k]
    consider (down) "?c = fr a b d (k + 1)" "k \<noteq> int (Suc d) \<or> k = - int (Suc d)"
      | (right) "?c = fr a b d (k - 1) + 1" "k \<noteq> - int (Suc d)"
      unfolding pf by auto
    then show ?thesis
    proof cases
      case down
      have "k \<noteq> int (Suc d)" using down(2) by auto
      then have "valid d (k + 1)" using Suc.prems by (rule valid_Suc_down[rotated])
      from Suc.IH[OF this] down(1) show ?thesis by simp
    next
      case right
      then have "valid d (k - 1)" using Suc.prems valid_Suc_right by blast
      from Suc.IH[OF this] right(1) show ?thesis by simp
    qed
  qed
  then have "?c \<le> diag_end a b ?c (?c - k)" by (intro diag_end_ge) simp_all
  moreover have "fr a b (Suc d) k = diag_end a b ?c (?c - k)"
    by (simp add: Let_def pf)
  ultimately show ?case using cb by simp
qed

lemma fr_ge_start: "valid d k \<Longrightarrow> start_x (prevf a b d) (int d) k \<le> fr a b d k"
  using start_fr_bounds[of d k a b] diag_end_ge[of "start_x (prevf a b d) (int d) k" "start_x (prevf a b d) (int d) k - k" a b]
  by (simp add: fr_eq Let_def)

lemma fr_lower:
  "valid d k \<Longrightarrow> int d + k \<le> 2 * fr a b d k \<and> int d - k \<le> 2 * (fr a b d k - k)"
proof (induction d arbitrary: k)
  case 0
  then have k: "k = 0" by (simp add: valid_0)
  have "0 \<le> fr a b 0 0" using start_fr_bounds[of 0 0 a b] by (simp add: valid_0)
  with k show ?case by simp
next
  case (Suc d)
  let ?c = "start_x (prevf a b (Suc d)) (int (Suc d)) k"
  have pf: "prevf a b (Suc d) = fr a b d" by (simp add: prevf_def)
  have cb: "int (Suc d) + k \<le> 2 * ?c \<and> int (Suc d) - k \<le> 2 * (?c - k)"
  proof -
    from start_x_cases[of "fr a b d" "int (Suc d)" k]
    consider (down) "?c = fr a b d (k + 1)" "k \<noteq> int (Suc d) \<or> k = - int (Suc d)"
      | (right) "?c = fr a b d (k - 1) + 1" "k \<noteq> - int (Suc d)"
      unfolding pf by auto
    then show ?thesis
    proof cases
      case down
      have "k \<noteq> int (Suc d)" using down(2) by auto
      then have "valid d (k + 1)" using Suc.prems by (rule valid_Suc_down[rotated])
      from Suc.IH[OF this] down(1) show ?thesis by simp
    next
      case right
      then have "valid d (k - 1)" using Suc.prems valid_Suc_right by blast
      from Suc.IH[OF this] right(1) show ?thesis by simp
    qed
  qed
  moreover have "?c \<le> fr a b (Suc d) k" by (rule fr_ge_start[OF Suc.prems])
  ultimately show ?case by simp
qed

section \<open>Paths of the edit graph and the search\<close>

lemma reach_valid: "reach a b d x y \<Longrightarrow> valid d (x - y) \<and> 0 \<le> x \<and> 0 \<le> y"
proof (induction rule: reach.induct)
  case origin
  show ?case by (simp add: valid_def)
next
  case (keep d x y)
  then show ?case by (simp add: valid_def)
next
  case (del d x y)
  then have "valid d (x - y)" "0 \<le> x" "0 \<le> y" by simp_all
  moreover have "valid d (x - y) \<Longrightarrow> valid (Suc d) (x + 1 - y)"
    unfolding valid_def by presburger
  ultimately show ?case by simp
next
  case (ins d x y)
  then have "valid d (x - y)" "0 \<le> x" "0 \<le> y" by simp_all
  moreover have "valid d (x - y) \<Longrightarrow> valid (Suc d) (x - (y + 1))"
    unfolding valid_def by presburger
  ultimately show ?case by simp
qed

lemma fr_stop: "valid d k \<Longrightarrow> \<not> same_line a b (fr a b d k) (fr a b d k - k)"
proof -
  assume v: "valid d k"
  let ?c = "start_x (prevf a b d) (int d) k"
  have c: "0 \<le> ?c" "0 \<le> ?c - k" using start_fr_bounds[OF v, of a b] by simp_all
  have "\<not> same_line a b (diag_end a b ?c (?c - k)) (?c - k + (diag_end a b ?c (?c - k) - ?c))"
    by (rule diag_end_stop[OF c])
  moreover have "?c - k + (diag_end a b ?c (?c - k) - ?c) = diag_end a b ?c (?c - k) - k" by arith
  ultimately show ?thesis by (simp add: fr_eq Let_def)
qed

lemma fr_cells:
  assumes v: "valid d k" and i: "start_x (prevf a b d) (int d) k \<le> i" "i < fr a b d k"
  shows "same_line a b i (i - k)"
proof -
  let ?c = "start_x (prevf a b d) (int d) k"
  have c: "0 \<le> ?c" "0 \<le> ?c - k" using start_fr_bounds[OF v, of a b] by simp_all
  have "i < diag_end a b ?c (?c - k)" using i(2) by (simp add: fr_eq Let_def)
  from diag_end_cells[OF c i(1) this] have "same_line a b i (?c - k + (i - ?c))" .
  moreover have "?c - k + (i - ?c) = i - k" by arith
  ultimately show ?thesis by simp
qed

lemma start_x_ge_right: "k \<noteq> - d \<Longrightarrow> prev (k - 1) + 1 \<le> start_x prev d k"
  by (auto simp: start_x_def)

lemma start_x_ge_down: "k \<noteq> d \<Longrightarrow> prev (k + 1) \<le> start_x prev d k"
  by (auto simp: start_x_def)

lemma furthest: "reach a b d x y \<Longrightarrow> x \<le> fr a b d (x - y)"
proof (induction rule: reach.induct)
  case origin
  show ?case using start_fr_bounds[of 0 0 a b] by (simp add: valid_def)
next
  case (keep d x y)
  have v: "valid d (x - y)" using reach_valid[OF keep.hyps(1)] by simp
  have "x \<noteq> fr a b d (x - y)"
  proof
    assume e: "x = fr a b d (x - y)"
    have "\<not> same_line a b (fr a b d (x - y)) (fr a b d (x - y) - (x - y))" by (rule fr_stop[OF v])
    moreover have "fr a b d (x - y) - (x - y) = y" using e by arith
    ultimately show False using keep.hyps(2) e by simp
  qed
  with keep.IH show ?case by simp
next
  case (del d x y)
  have v: "valid d (x - y)" using reach_valid[OF del.hyps] by simp
  have v': "valid (Suc d) (x + 1 - y)" using reach_valid[OF reach.del[OF del.hyps]] by simp
  have ne: "x + 1 - y \<noteq> - int (Suc d)" using v by (simp add: valid_def)
  have "fr a b d (x + 1 - y - 1) + 1 \<le> start_x (fr a b d) (int (Suc d)) (x + 1 - y)"
    by (rule start_x_ge_right[OF ne])
  also have "\<dots> = start_x (prevf a b (Suc d)) (int (Suc d)) (x + 1 - y)" by (simp add: prevf_def)
  also have "\<dots> \<le> fr a b (Suc d) (x + 1 - y)" by (rule fr_ge_start[OF v'])
  finally show ?case using del.IH by simp
next
  case (ins d x y)
  have v: "valid d (x - y)" using reach_valid[OF ins.hyps] by simp
  have v': "valid (Suc d) (x - (y + 1))" using reach_valid[OF reach.ins[OF ins.hyps]] by simp
  have ne: "x - (y + 1) \<noteq> int (Suc d)" using v by (simp add: valid_def)
  have "fr a b d (x - (y + 1) + 1) \<le> start_x (fr a b d) (int (Suc d)) (x - (y + 1))"
    by (rule start_x_ge_down[OF ne])
  also have "\<dots> = start_x (prevf a b (Suc d)) (int (Suc d)) (x - (y + 1))" by (simp add: prevf_def)
  also have "\<dots> \<le> fr a b (Suc d) (x - (y + 1))" by (rule fr_ge_start[OF v'])
  finally show ?case using ins.IH by simp
qed

lemma reach_run:
  assumes r: "reach a b d x y" and le: "x \<le> x'"
    and cells: "\<forall>i. x \<le> i \<and> i < x' \<longrightarrow> same_line a b i (y + (i - x))"
  shows "reach a b d x' (y + (x' - x))"
  using le cells
proof (induction x' rule: int_ge_induct)
  case base
  show ?case using r by simp
next
  case (step i)
  then have "reach a b d i (y + (i - x))" by simp
  moreover have "same_line a b i (y + (i - x))" using step by simp
  ultimately have "reach a b d (i + 1) (y + (i - x) + 1)" by (rule reach.keep)
  moreover have "y + (i - x) + 1 = y + (i + 1 - x)" by arith
  ultimately show ?case by simp
qed

lemma reach_start_fr:
  "valid d k \<Longrightarrow>
     reach a b d (start_x (prevf a b d) (int d) k) (start_x (prevf a b d) (int d) k - k) \<and>
     reach a b d (fr a b d k) (fr a b d k - k)"
proof (induction d arbitrary: k)
  case 0
  then have k: "k = 0" by (simp add: valid_0)
  have c: "start_x (prevf a b 0) (int 0) k = 0" using k by (simp add: start_x_def prevf_def)
  have s: "reach a b 0 (start_x (prevf a b 0) (int 0) k) (start_x (prevf a b 0) (int 0) k - k)"
    using c k reach.origin by simp
  have "reach a b 0 (fr a b 0 k) (0 + (fr a b 0 k - 0))"
  proof (rule reach_run[OF reach.origin])
    show "0 \<le> fr a b 0 k" using start_fr_bounds[OF "0.prems", of a b] by simp
    show "\<forall>i. 0 \<le> i \<and> i < fr a b 0 k \<longrightarrow> same_line a b i (0 + (i - 0))"
      using fr_cells[OF "0.prems", of a b] c k by simp
  qed
  with s k show ?case by simp
next
  case (Suc d)
  let ?c = "start_x (prevf a b (Suc d)) (int (Suc d)) k"
  have pf: "prevf a b (Suc d) = fr a b d" by (simp add: prevf_def)
  have s: "reach a b (Suc d) ?c (?c - k)"
  proof -
    from start_x_cases[of "fr a b d" "int (Suc d)" k]
    consider (down) "?c = fr a b d (k + 1)" "k \<noteq> int (Suc d) \<or> k = - int (Suc d)"
      | (right) "?c = fr a b d (k - 1) + 1" "k \<noteq> - int (Suc d)"
      unfolding pf by auto
    then show ?thesis
    proof cases
      case down
      have "k \<noteq> int (Suc d)" using down(2) by auto
      then have "valid d (k + 1)" using Suc.prems by (rule valid_Suc_down[rotated])
      from Suc.IH[OF this] have "reach a b d (fr a b d (k + 1)) (fr a b d (k + 1) - (k + 1))" by simp
      then have "reach a b (Suc d) (fr a b d (k + 1)) (fr a b d (k + 1) - (k + 1) + 1)" by (rule reach.ins)
      moreover have "fr a b d (k + 1) - (k + 1) + 1 = ?c - k" using down(1) by arith
      ultimately show ?thesis using down(1) by simp
    next
      case right
      then have "valid d (k - 1)" using Suc.prems valid_Suc_right by blast
      from Suc.IH[OF this] have "reach a b d (fr a b d (k - 1)) (fr a b d (k - 1) - (k - 1))" by simp
      then have "reach a b (Suc d) (fr a b d (k - 1) + 1) (fr a b d (k - 1) - (k - 1))" by (rule reach.del)
      moreover have "fr a b d (k - 1) - (k - 1) = ?c - k" using right(1) by arith
      ultimately show ?thesis using right(1) by simp
    qed
  qed
  have "reach a b (Suc d) (fr a b (Suc d) k) (?c - k + (fr a b (Suc d) k - ?c))"
  proof (rule reach_run[OF s])
    show "?c \<le> fr a b (Suc d) k" by (rule fr_ge_start[OF Suc.prems])
    show "\<forall>i. ?c \<le> i \<and> i < fr a b (Suc d) k \<longrightarrow> same_line a b i (?c - k + (i - ?c))"
    proof (intro allI impI)
      fix i assume "?c \<le> i \<and> i < fr a b (Suc d) k"
      then have "same_line a b i (i - k)" using fr_cells[OF Suc.prems, of a b i] by simp
      moreover have "?c - k + (i - ?c) = i - k" by arith
      ultimately show "same_line a b i (?c - k + (i - ?c))" by simp
    qed
  qed
  moreover have "?c - k + (fr a b (Suc d) k - ?c) = fr a b (Suc d) k - k" by arith
  ultimately show ?case using s by simp
qed

lemma reach_clip:
  "reach a b d x y \<Longrightarrow>
   \<exists>d'. reach a b d' (min x (int (length a))) (min y (int (length b))) \<and>
        d = d' + nat (x - min x (int (length a))) + nat (y - min y (int (length b)))"
proof (induction rule: reach.induct)
  case origin
  have "reach a b 0 (min 0 (int (length a))) (min 0 (int (length b)))" using reach.origin by simp
  then show ?case by (intro exI[of _ 0]) simp
next
  case (keep d x y)
  then have "x < int (length a)" "y < int (length b)" by (simp_all add: same_line_def)
  then have "min (x + 1) (int (length a)) = x + 1" "min (y + 1) (int (length b)) = y + 1" by simp_all
  then show ?case using reach.keep[OF keep.hyps] by (intro exI[of _ d]) simp
next
  case (del d x y)
  then obtain d' where r: "reach a b d' (min x (int (length a))) (min y (int (length b)))"
    and e: "d = d' + nat (x - min x (int (length a))) + nat (y - min y (int (length b)))" by blast
  show ?case
  proof (cases "x < int (length a)")
    case True
    then have m: "min (x + 1) (int (length a)) = x + 1" "min x (int (length a)) = x" by simp_all
    have "reach a b (Suc d') (x + 1) (min y (int (length b)))" using reach.del[OF r] m by simp
    then show ?thesis using e m by (intro exI[of _ "Suc d'"]) simp
  next
    case False
    then have m: "min (x + 1) (int (length a)) = int (length a)" "min x (int (length a)) = int (length a)" by simp_all
    have "Suc d = d' + nat (x + 1 - int (length a)) + nat (y - min y (int (length b)))"
      using e m False by simp
    then show ?thesis using r m by (intro exI[of _ d']) simp
  qed
next
  case (ins d x y)
  then obtain d' where r: "reach a b d' (min x (int (length a))) (min y (int (length b)))"
    and e: "d = d' + nat (x - min x (int (length a))) + nat (y - min y (int (length b)))" by blast
  show ?case
  proof (cases "y < int (length b)")
    case True
    then have m: "min (y + 1) (int (length b)) = y + 1" "min y (int (length b)) = y" by simp_all
    have "reach a b (Suc d') (min x (int (length a))) (y + 1)" using reach.ins[OF r] m by simp
    then show ?thesis using e m by (intro exI[of _ "Suc d'"]) simp
  next
    case False
    then have m: "min (y + 1) (int (length b)) = int (length b)" "min y (int (length b)) = int (length b)" by simp_all
    have "Suc d = d' + nat (x - min x (int (length a))) + nat (y + 1 - int (length b))"
      using e m False by simp
    then show ?thesis using r m by (intro exI[of _ d']) simp
  qed
qed

lemma reach_deletes: "0 \<le> x \<Longrightarrow> reach a b (nat x) x 0"
proof (induction x rule: int_ge_induct)
  case base
  show ?case using reach.origin by simp
next
  case (step i)
  then have "reach a b (Suc (nat i)) (i + 1) 0" by (intro reach.del) simp
  moreover have "Suc (nat i) = nat (i + 1)" using step by simp
  ultimately show ?case by simp
qed

lemma reach_inserts: "0 \<le> y \<Longrightarrow> reach a b d x 0 \<Longrightarrow> reach a b (d + nat y) x y"
proof (induction y rule: int_ge_induct)
  case base
  then show ?case by simp
next
  case (step i)
  then have "reach a b (Suc (d + nat i)) x (i + 1)" by (intro reach.ins) simp
  moreover have "Suc (d + nat i) = d + nat (i + 1)" using step by simp
  ultimately show ?case by simp
qed

lemma reach_full: "reach a b (length a + length b) (int (length a)) (int (length b))"
  using reach_inserts[OF _ reach_deletes, of "int (length b)" "int (length a)" a b] by simp

lemma Dmin_reach: "reach a b (Dmin a b) (int (length a)) (int (length b))"
  unfolding Dmin_def
  by (rule LeastI[where P = "\<lambda>d. reach a b d (int (length a)) (int (length b))", OF reach_full])

lemma Dmin_le: "Dmin a b \<le> length a + length b"
  unfolding Dmin_def
  by (rule Least_le[where P = "\<lambda>d. reach a b d (int (length a)) (int (length b))", OF reach_full])

lemma Dmin_least: "reach a b d (int (length a)) (int (length b)) \<Longrightarrow> Dmin a b \<le> d"
  unfolding Dmin_def by (rule Least_le)

lemma Dmin_valid: "valid (Dmin a b) (int (length a) - int (length b))"
  using reach_valid[OF Dmin_reach] by simp

lemma fr_Dmin: "fr a b (Dmin a b) (int (length a) - int (length b)) = int (length a)"
proof -
  let ?M = "int (length a)" and ?N = "int (length b)"
  let ?x = "fr a b (Dmin a b) (?M - ?N)"
  have ge: "?M \<le> ?x" using furthest[OF Dmin_reach, of a b] by simp
  have "reach a b (Dmin a b) ?x (?x - (?M - ?N))" using reach_start_fr[OF Dmin_valid, of a b] by simp
  from reach_clip[OF this] obtain d' where r: "reach a b d' (min ?x ?M) (min (?x - (?M - ?N)) ?N)"
    and e: "Dmin a b = d' + nat (?x - min ?x ?M) + nat (?x - (?M - ?N) - min (?x - (?M - ?N)) ?N)"
    by blast
  have "min ?x ?M = ?M" "min (?x - (?M - ?N)) ?N = ?N" using ge by simp_all
  with r e have "reach a b d' ?M ?N" and e': "Dmin a b = d' + nat (?x - ?M) + nat (?x - (?M - ?N) - ?N)" by simp_all
  from Dmin_least[OF this(1)] e' have "nat (?x - ?M) = 0" by simp
  with ge show ?thesis by simp
qed

lemma no_goal_before:
  assumes "d < Dmin a b" "valid d k"
  shows "\<not> (fr a b d k = int (length a) \<and> fr a b d k - k = int (length b))"
proof
  assume g: "fr a b d k = int (length a) \<and> fr a b d k - k = int (length b)"
  have "reach a b d (fr a b d k) (fr a b d k - k)" using reach_start_fr[OF assms(2), of a b] by simp
  moreover from g have "fr a b d k = int (length a)" "fr a b d k - k = int (length b)" by simp_all
  ultimately have "reach a b d (int (length a)) (int (length b))" by metis
  from Dmin_least[OF this] assms(1) show False by simp
qed

section \<open>The inner loop of the search\<close>

lemma index_rd:
  "int (length V) = 2 * off + 1 \<Longrightarrow> - off \<le> k \<Longrightarrow> k \<le> off \<Longrightarrow> index V (k + off) = Inr (rd V off k)"
  by (simp add: index_def rd_def)

lemma store_rd:
  "int (length V) = 2 * off + 1 \<Longrightarrow> - off \<le> k \<Longrightarrow> k \<le> off \<Longrightarrow>
   store V (k + off) v = Inr (V[nat (k + off) := v])"
  by (simp add: store_def)

lemma rd_update:
  "int (length V) = 2 * off + 1 \<Longrightarrow> - off \<le> k \<Longrightarrow> k \<le> off \<Longrightarrow> - off \<le> k' \<Longrightarrow>
   rd (V[nat (k + off) := v]) off k' = (if k' = k then v else rd V off k')"
  by (auto simp: rd_def nth_list_update)

lemma pvalid_range: "pvalid d k \<Longrightarrow> 1 \<le> off \<Longrightarrow> int d \<le> off \<Longrightarrow> - off \<le> k \<and> k \<le> off"
  by (cases d) (auto simp: pvalid_def valid_def)

lemma pvalid_not_valid: "pvalid d k \<Longrightarrow> \<not> valid d k"
  by (cases d) (auto simp: pvalid_def valid_def)

lemma pvalid_down: "valid d k \<Longrightarrow> k = - int d \<or> k \<noteq> int d \<Longrightarrow> pvalid d (k + 1)"
proof (cases d)
  case 0
  assume "valid d k"
  with 0 show ?thesis by (simp add: pvalid_def valid_0)
next
  case (Suc d')
  assume v: "valid d k" and c: "k = - int d \<or> k \<noteq> int d"
  from c have "k \<noteq> int d" using Suc by auto
  with v Suc show ?thesis using valid_Suc_down[of d' k] by (simp add: pvalid_def)
qed

lemma pvalid_right: "valid d k \<Longrightarrow> k \<noteq> - int d \<Longrightarrow> pvalid d (k - 1)"
proof (cases d)
  case 0
  assume "valid d k" "k \<noteq> - int d"
  with 0 show ?thesis by (simp add: valid_0)
next
  case (Suc d')
  assume "valid d k" "k \<noteq> - int d"
  with Suc show ?thesis using valid_Suc_right[of d' k] by (simp add: pvalid_def)
qed

lemma go_down_eq:
  assumes p: "prev_ok a b off d V" and v: "valid d k" and off: "1 \<le> off" "int d \<le> off"
  shows "go_down V off (int d) k =
           Inr (k = - int d \<or> (k \<noteq> int d \<and> prevf a b d (k - 1) < prevf a b d (k + 1)))"
proof (cases "k = - int d \<or> k = int d")
  case True
  then show ?thesis by (auto simp: go_down_def)
next
  case False
  then have pl: "pvalid d (k - 1)" and pr: "pvalid d (k + 1)"
    using pvalid_right[OF v] pvalid_down[OF v] by auto
  have len: "int (length V) = 2 * off + 1" using p by (simp add: prev_ok_def)
  have "index V (k - 1 + off) = Inr (prevf a b d (k - 1))"
    using index_rd[OF len, of "k - 1"] pvalid_range[OF pl off] p pl by (simp add: prev_ok_def)
  moreover have "index V (k + 1 + off) = Inr (prevf a b d (k + 1))"
    using index_rd[OF len, of "k + 1"] pvalid_range[OF pr off] p pr by (simp add: prev_ok_def)
  ultimately show ?thesis using False by (simp add: go_down_def)
qed

lemma start_read:
  assumes p: "prev_ok a b off d V" and v: "valid d k" and off: "1 \<le> off" "int d \<le> off"
  shows "(if k = - int d \<or> (k \<noteq> int d \<and> prevf a b d (k - 1) < prevf a b d (k + 1))
          then index V (k + 1 + off)
          else (case index V (k - 1 + off) of Inl e \<Rightarrow> Inl e | Inr v \<Rightarrow> Inr (v + 1)))
         = Inr (start_x (prevf a b d) (int d) k)"
proof (cases "k = - int d \<or> (k \<noteq> int d \<and> prevf a b d (k - 1) < prevf a b d (k + 1))")
  case True
  then have pr: "pvalid d (k + 1)" using pvalid_down[OF v] by auto
  have len: "int (length V) = 2 * off + 1" using p by (simp add: prev_ok_def)
  have "index V (k + 1 + off) = Inr (prevf a b d (k + 1))"
    using index_rd[OF len, of "k + 1"] pvalid_range[OF pr off] p pr by (simp add: prev_ok_def)
  with True show ?thesis by (auto simp: start_x_def)
next
  case False
  then have pl: "pvalid d (k - 1)" using pvalid_right[OF v] by auto
  have len: "int (length V) = 2 * off + 1" using p by (simp add: prev_ok_def)
  have "index V (k - 1 + off) = Inr (prevf a b d (k - 1))"
    using index_rd[OF len, of "k - 1"] pvalid_range[OF pl off] p pl by (simp add: prev_ok_def)
  with False show ?thesis by (auto simp: start_x_def)
qed

lemma diag_loop_fr:
  assumes v: "valid d k"
  shows "diag_loop a b (start_x (prevf a b d) (int d) k) (start_x (prevf a b d) (int d) k - k)
           = Inr (fr a b d k, fr a b d k - k)"
proof -
  let ?c = "start_x (prevf a b d) (int d) k"
  have c: "0 \<le> ?c" "0 \<le> ?c - k" using start_fr_bounds[OF v, of a b] by simp_all
  have "diag_loop a b ?c (?c - k) = Inr (diag_end a b ?c (?c - k), ?c - k + (diag_end a b ?c (?c - k) - ?c))"
    by (rule diag_loop_eq[OF c])
  moreover have "?c - k + (diag_end a b ?c (?c - k) - ?c) = diag_end a b ?c (?c - k) - k" by arith
  ultimately show ?thesis by (simp add: fr_eq Let_def)
qed

lemma ses_k_step:
  assumes p: "prev_ok a b off d V" and v: "valid d k" and off: "1 \<le> off" "int d \<le> off"
  shows "ses_k a b off (int d) k V =
           (if goal a b d k then Inr (True, V[nat (k + off) := fr a b d k])
            else ses_k a b off (int d) (k + 2) (V[nat (k + off) := fr a b d k]))"
proof -
  have len: "int (length V) = 2 * off + 1" using p by (simp add: prev_ok_def)
  have kr: "- off \<le> k" "k \<le> off" using v off by (simp_all add: valid_def)
  have kd: "k \<le> int d" using v by (simp add: valid_def)
  note g = go_down_eq[OF p v off]
  note s = start_read[OF p v off]
  note dl = diag_loop_fr[OF v, of a b]
  note st = store_rd[OF len kr, of "fr a b d k"]
  show ?thesis
    by (subst ses_k.simps) (simp add: kd g s dl st goal_def)
qed

lemma step_prev_ok:
  assumes p: "prev_ok a b off d V" and v: "valid d k" and off: "1 \<le> off" "int d \<le> off"
  shows "prev_ok a b off d (V[nat (k + off) := x])"
proof -
  have len: "int (length V) = 2 * off + 1" using p by (simp add: prev_ok_def)
  have kr: "- off \<le> k" "k \<le> off" using v off by (simp_all add: valid_def)
  have "rd (V[nat (k + off) := x]) off k' = prevf a b d k'" if pv: "pvalid d k'" for k'
  proof -
    have "k' \<noteq> k" using pvalid_not_valid[OF pv] v by auto
    moreover have "- off \<le> k'" using pvalid_range[OF pv off] by simp
    ultimately show ?thesis using rd_update[OF len kr, of k' x] p pv by (simp add: prev_ok_def)
  qed
  then show ?thesis using len by (simp add: prev_ok_def)
qed

lemma step_cur_ok:
  assumes p: "prev_ok a b off d V" and c: "cur_ok a b off d k V"
    and v: "valid d k" and off: "1 \<le> off" "int d \<le> off"
  shows "cur_ok a b off d (k + 2) (V[nat (k + off) := fr a b d k])"
proof -
  have len: "int (length V) = 2 * off + 1" using p by (simp add: prev_ok_def)
  have kr: "- off \<le> k" "k \<le> off" using v off by (simp_all add: valid_def)
  have "rd (V[nat (k + off) := fr a b d k]) off k' = fr a b d k'" if v': "valid d k'" and lt: "k' < k + 2" for k'
  proof (cases "k' = k")
    case True
    then show ?thesis using rd_update[OF len kr, of k' "fr a b d k"] kr by simp
  next
    case False
    have "k' \<noteq> k + 1" using v v' unfolding valid_def by presburger
    with False lt have "k' < k" by arith
    moreover have "- off \<le> k'" using v' off by (simp add: valid_def)
    ultimately show ?thesis using rd_update[OF len kr, of k' "fr a b d k"] c v' False by (simp add: cur_ok_def)
  qed
  then show ?thesis by (simp add: cur_ok_def)
qed

lemma ses_k_run:
  assumes off: "1 \<le> off" "int d \<le> off"
  shows "prev_ok a b off d V \<Longrightarrow> cur_ok a b off d k V \<Longrightarrow>
         - int d \<le> k \<Longrightarrow> k \<le> int d + 2 \<Longrightarrow> even (k + int d) \<Longrightarrow>
         \<exists>V'. ses_k a b off (int d) k V = Inr (\<exists>k'. valid d k' \<and> k \<le> k' \<and> goal a b d k', V') \<and>
              prev_ok a b off d V' \<and>
              ((\<forall>k'. valid d k' \<and> k \<le> k' \<longrightarrow> \<not> goal a b d k') \<longrightarrow> cur_ok a b off d (int d + 2) V')"
proof (induction "nat (int d + 2 - k)" arbitrary: k V rule: less_induct)
  case less
  show ?case
  proof (cases "k \<le> int d")
    case False
    with less.prems have k: "k = int d + 2" unfolding valid_def by presburger
    have "ses_k a b off (int d) k V = Inr (False, V)" using False by (subst ses_k.simps) simp
    moreover have "\<not> (\<exists>k'. valid d k' \<and> k \<le> k' \<and> goal a b d k')" using k by (auto simp: valid_def)
    ultimately show ?thesis using less.prems k by (intro exI[of _ V]) simp
  next
    case True
    with less.prems have v: "valid d k" by (simp add: valid_def)
    let ?V = "V[nat (k + off) := fr a b d k]"
    note step = ses_k_step[OF less.prems(1) v off]
    have p': "prev_ok a b off d ?V" by (rule step_prev_ok[OF less.prems(1) v off])
    have c': "cur_ok a b off d (k + 2) ?V" by (rule step_cur_ok[OF less.prems(1,2) v off])
    show ?thesis
    proof (cases "goal a b d k")
      case g: True
      then have "\<exists>k'. valid d k' \<and> k \<le> k' \<and> goal a b d k'" using v by (intro exI[of _ k]) simp
      then show ?thesis using step g p' by (intro exI[of _ ?V]) auto
    next
      case ng: False
      have m: "nat (int d + 2 - (k + 2)) < nat (int d + 2 - k)" using True by simp
      have e: "even (k + 2 + int d)" using less.prems(5) by simp
      from less.hyps[OF m p' c' _ _ e] True less.prems
      obtain V' where r: "ses_k a b off (int d) (k + 2) ?V =
            Inr (\<exists>k'. valid d k' \<and> k + 2 \<le> k' \<and> goal a b d k', V')"
        and p'': "prev_ok a b off d V'"
        and c'': "(\<forall>k'. valid d k' \<and> k + 2 \<le> k' \<longrightarrow> \<not> goal a b d k') \<longrightarrow> cur_ok a b off d (int d + 2) V'"
        by auto
      have next_k: "k \<le> k' \<longleftrightarrow> k' = k \<or> k + 2 \<le> k'" if "valid d k'" for k'
        using that v unfolding valid_def by presburger
      have eq: "(\<exists>k'. valid d k' \<and> k \<le> k' \<and> goal a b d k') \<longleftrightarrow>
                (\<exists>k'. valid d k' \<and> k + 2 \<le> k' \<and> goal a b d k')"
        using next_k ng by blast
      have "(\<forall>k'. valid d k' \<and> k \<le> k' \<longrightarrow> \<not> goal a b d k') \<longrightarrow> cur_ok a b off d (int d + 2) V'"
        using c'' next_k by blast
      then show ?thesis using step ng r p'' eq by (intro exI[of _ V']) simp
    qed
  qed
qed

section \<open>The search returns a trace\<close>

lemma goal_Dmin: "goal a b (Dmin a b) (int (length a) - int (length b))"
  by (simp add: goal_def fr_Dmin)

lemma cur_ok_start: "cur_ok a b off d (- int d) V"
  by (simp add: cur_ok_def valid_def)

lemma prev_ok_Suc:
  assumes "prev_ok a b off d V" "cur_ok a b off d (int d + 2) V"
  shows "prev_ok a b off (Suc d) V"
proof -
  have "rd V off k = prevf a b (Suc d) k" if "pvalid (Suc d) k" for k
  proof -
    from that have v: "valid d k" by (simp add: pvalid_def)
    then have "k < int d + 2" by (simp add: valid_def)
    with assms(2) v show ?thesis by (simp add: cur_ok_def prevf_def)
  qed
  with assms(1) show ?thesis by (simp add: prev_ok_def)
qed

lemma ses_d_run:
  assumes off: "off = int (length b) + int (length a)" "1 \<le> off"
  shows "d \<le> Dmin a b \<Longrightarrow> prev_ok a b off d V \<Longrightarrow> length trace = length a + length b + 1 \<Longrightarrow>
         (\<forall>d' < d. prev_ok a b off d' (trace ! d')) \<Longrightarrow>
         (\<forall>d'. d \<le> d' \<and> d' \<le> length a + length b \<longrightarrow> trace ! d' = []) \<Longrightarrow>
         \<exists>trace'. ses_d a b off (int d) V trace = Inr (trace', off) \<and> good_trace a b trace'"
proof (induction "Dmin a b - d" arbitrary: d V trace rule: less_induct)
  case less
  have dle: "d \<le> length a + length b" using less.prems(1) Dmin_le[of a b] by simp
  then have doff: "int d \<le> off" using off by simp
  have dle': "int d \<le> int (length b) + int (length a)" using dle by simp
  from ses_k_run[OF off(2) doff less.prems(2) cur_ok_start]
  obtain V' where r: "ses_k a b off (int d) (- int d) V =
        Inr (\<exists>k'. valid d k' \<and> - int d \<le> k' \<and> goal a b d k', V')"
    and p': "prev_ok a b off d V'"
    and c': "(\<forall>k'. valid d k' \<and> - int d \<le> k' \<longrightarrow> \<not> goal a b d k') \<longrightarrow> cur_ok a b off d (int d + 2) V'"
    by auto
  have st: "store trace (int d) V' = Inr (trace[d := V'])"
    using dle less.prems(3) by (simp add: store_def)
  show ?case
  proof (cases "d = Dmin a b")
    case True
    have "valid d (int (length a) - int (length b)) \<and> - int d \<le> int (length a) - int (length b) \<and>
          goal a b d (int (length a) - int (length b))"
      using True Dmin_valid[of a b] goal_Dmin[of a b] by (simp add: valid_def)
    then have found: "\<exists>k'. valid d k' \<and> - int d \<le> k' \<and> goal a b d k'" by blast
    have res: "ses_d a b off (int d) V trace = Inr (trace[d := V'], off)"
      using dle' r st found by (subst ses_d.simps) simp
    have "good_trace a b (trace[d := V'])"
      unfolding good_trace_def
    proof (intro conjI allI impI)
      show "length (trace[d := V']) = length a + length b + 1" using less.prems(3) by simp
    next
      fix d' assume "d' \<le> Dmin a b"
      then show "prev_ok a b (int (length b) + int (length a)) d' (trace[d := V'] ! d')"
        using True p' less.prems(3,4) dle off(1) by (cases "d' = d") auto
    next
      fix d' assume "Dmin a b < d' \<and> d' \<le> length a + length b"
      then show "trace[d := V'] ! d' = []" using True less.prems(5) by simp
    qed
    with res show ?thesis by blast
  next
    case False
    with less.prems(1) have lt: "d < Dmin a b" by simp
    have nf: "\<forall>k'. valid d k' \<and> - int d \<le> k' \<longrightarrow> \<not> goal a b d k'"
      using no_goal_before[OF lt] by (auto simp: goal_def)
    then have nfound: "\<not> (\<exists>k'. valid d k' \<and> - int d \<le> k' \<and> goal a b d k')" by blast
    have cur: "cur_ok a b off d (int d + 2) V'" using c' nf by blast
    have step: "ses_d a b off (int d) V trace = ses_d a b off (int (Suc d)) V' (trace[d := V'])"
      using dle' r st nfound by (subst ses_d.simps) (simp add: add.commute)
    have m: "Dmin a b - Suc d < Dmin a b - d" using lt by simp
    have p2: "prev_ok a b off (Suc d) V'" by (rule prev_ok_Suc[OF p' cur])
    have i1: "\<forall>d' < Suc d. prev_ok a b off d' (trace[d := V'] ! d')"
    proof (intro allI impI)
      fix d' assume "d' < Suc d"
      then show "prev_ok a b off d' (trace[d := V'] ! d')"
        using p' less.prems(3,4) dle by (cases "d' = d") auto
    qed
    have i2: "\<forall>d'. Suc d \<le> d' \<and> d' \<le> length a + length b \<longrightarrow> trace[d := V'] ! d' = []"
      using less.prems(5) by simp
    have l2: "length (trace[d := V']) = length a + length b + 1" using less.prems(3) by simp
    from less.hyps[OF m _ p2 l2 i1 i2] lt step show ?thesis by simp
  qed
qed

lemma shortestEditSequence_good:
  assumes ne: "a \<noteq> [] \<or> b \<noteq> []"
  shows "\<exists>trace. shortestEditSequence a b = Inr (trace, int (length b) + int (length a)) \<and>
                 good_trace a b trace"
proof -
  let ?off = "int (length b) + int (length a)"
  let ?V = "replicate (nat (2 * ?off + 1)) (0::int)"
  let ?T = "replicate (nat (?off + 1)) ([]::int list)"
  have off1: "1 \<le> ?off" using ne by (cases a; cases b) auto
  have p0: "prev_ok a b ?off 0 ?V"
    using off1 by (simp add: prev_ok_def pvalid_def rd_def prevf_def)
  have l: "length ?T = length a + length b + 1" by (simp add: nat_add_distrib)
  have e: "\<forall>d'. 0 \<le> d' \<and> d' \<le> length a + length b \<longrightarrow> ?T ! d' = []"
  proof (intro allI impI)
    fix d' assume "0 \<le> d' \<and> d' \<le> length a + length b"
    then have "d' < nat (?off + 1)" by arith
    then show "?T ! d' = []" by (rule nth_replicate)
  qed
  from ses_d_run[OF refl off1 _ p0 l _ e]
  obtain trace' where "ses_d a b ?off (int 0) ?V ?T = Inr (trace', ?off)" "good_trace a b trace'"
    by auto
  then show ?thesis by (auto simp: shortestEditSequence_def Let_def)
qed

section \<open>One step of backtracking\<close>

lemma pts_of_Nil [simp]: "pts_of [] = []"
  by (simp add: pts_of_def)

lemma pts_of_Cons_empty [simp]: "pts_of ([] # snakes) = pts_of snakes"
  by (simp add: pts_of_def)

lemma pts_of_Cons_pair [simp]: "pts_of ([x, y] # snakes) = (x, y) # pts_of snakes"
  by (simp add: pts_of_def)

lemma pts_of_append: "pts_of (xs @ ys) = pts_of xs @ pts_of ys"
  by (simp add: pts_of_def)

lemma pts_of_all_empty: "\<forall>s\<in>set xs. s = [] \<Longrightarrow> pts_of xs = []"
  by (induction xs) auto

lemma pts_of_update:
  assumes "d < length snakes" "\<forall>d' \<le> d. snakes ! d' = []"
  shows "pts_of (snakes[d := [x, y]]) = (x, y) # pts_of (drop (Suc d) snakes)"
proof -
  have "snakes[d := [x, y]] = take d snakes @ [x, y] # drop (Suc d) snakes"
    using assms(1) by (rule upd_conv_take_nth_drop)
  moreover have "\<forall>s\<in>set (take d snakes). s = []"
  proof
    fix s assume "s \<in> set (take d snakes)"
    then obtain i where "i < length (take d snakes)" "take d snakes ! i = s"
      by (auto simp: in_set_conv_nth)
    then show "s = []" using assms by auto
  qed
  ultimately show ?thesis by (simp add: pts_of_append pts_of_all_empty)
qed

lemma pts_of_drop_empty:
  assumes "d < length snakes" "snakes ! d = []"
  shows "pts_of (drop d snakes) = pts_of (drop (Suc d) snakes)"
proof -
  have "drop d snakes = snakes ! d # drop (Suc d) snakes"
    using assms(1) by (simp add: Cons_nth_drop_Suc)
  with assms(2) show ?thesis by simp
qed

lemma seg_ok_first:
  assumes "0 \<le> x" "x \<le> int (length a)" "0 \<le> y" "y \<le> int (length b)"
    and "x = 0 \<or> y = 0"
  shows "seg_ok a b 0 0 x y"
  unfolding seg_ok_def
proof (intro conjI)
  show "\<exists>x1 y1. 0 \<le> x1 \<and> 0 \<le> y1 \<and> (x1 = 0 \<or> y1 = 0) \<and> x1 - y1 = x - y \<and> x1 \<le> x \<and>
        x1 \<le> int (length a) \<and> y1 \<le> int (length b) \<and>
        (\<forall>i. x1 \<le> i \<and> i < x \<longrightarrow> same_line a b i (i - (x - y)))"
    using assms by (intro exI[of _ x] exI[of _ y]) auto
qed simp_all

lemma seg_ok_depth0:
  assumes "on_path a b 0 x y"
  shows "seg_ok a b 0 0 x y"
proof -
  from assms have v: "valid 0 (x - y)" and e: "x = fr a b 0 (x - y)" by (auto simp: on_path_def)
  from v have k: "x - y = 0" by (simp add: valid_0)
  have st: "start_x (prevf a b 0) (int 0) 0 = 0" by (simp add: start_x_def prevf_def)
  have cells: "\<forall>i. 0 \<le> i \<and> i < x \<longrightarrow> same_line a b i (i - (x - y))"
    using fr_cells[of 0 0 a b] st e k by (simp add: valid_0)
  have "0 \<le> x" using start_fr_bounds[of 0 0 a b] e k by (simp add: valid_0)
  then show ?thesis unfolding seg_ok_def using cells k
    by (intro conjI exI[of _ 0]) auto
qed

lemma same_line_bounds: "same_line a b i j \<Longrightarrow> i < int (length a) \<and> j < int (length b)"
  by (simp add: same_line_def)

text \<open>One step of the walk, at a depth that the search reached.\<close>

lemma bt_step:
  assumes gt: "good_trace a b trace" and off: "off = int (length b) + int (length a)" "1 \<le> off"
    and d: "0 < d" "d \<le> Dmin a b" and v: "valid d (x - y)" and x: "x = fr a b d (x - y)"
    and xy: "x \<le> int (length a)" "y \<le> int (length b)"
  defines "down \<equiv> x - y = - int d \<or> (x - y \<noteq> int d \<and> prevf a b d (x - y - 1) < prevf a b d (x - y + 1))"
  defines "kPrev \<equiv> (if down then x - y + 1 else x - y - 1)"
  defines "x' \<equiv> fr a b (d - 1) kPrev"
  shows "index trace (int d) = Inr (trace ! d)" "length (trace ! d) \<noteq> 0"
    "go_down (trace ! d) off (int d) (x - y) = Inr down"
    "index (trace ! d) (kPrev + off) = Inr x'"
    "valid (d - 1) kPrev" "0 \<le> x'" "0 \<le> x' - kPrev" "x' \<le> int (length a)" "x' - kPrev \<le> int (length b)"
    "seg_ok a b x' (x' - kPrev) x y" "\<bar>x - y - kPrev\<bar> = 1"
proof -
  show "\<bar>x - y - kPrev\<bar> = 1" by (simp add: kPrev_def)
  have dle: "d \<le> length a + length b" using d(2) Dmin_le[of a b] by simp
  have doff: "int d \<le> off" using dle off by simp
  have p: "prev_ok a b off d (trace ! d)" using gt d(2) off(1) by (simp add: good_trace_def)
  have len: "int (length (trace ! d)) = 2 * off + 1" using p by (simp add: prev_ok_def)
  show "index trace (int d) = Inr (trace ! d)" using gt dle by (simp add: good_trace_def index_def)
  show "length (trace ! d) \<noteq> 0" using len off(2) by auto
  show gd: "go_down (trace ! d) off (int d) (x - y) = Inr down"
    unfolding down_def by (rule go_down_eq[OF p v off(2) doff])
  obtain d' where d': "d = Suc d'" using d(1) by (cases d) auto
  have pf: "prevf a b d = fr a b d'" using d' by (simp add: prevf_def)
  have pv: "pvalid d kPrev"
    unfolding kPrev_def using pvalid_down[OF v] pvalid_right[OF v] by (auto simp: down_def)
  then show vk: "valid (d - 1) kPrev" using d' by (simp add: pvalid_def)
  have "index (trace ! d) (kPrev + off) = Inr (prevf a b d kPrev)"
    using index_rd[OF len, of kPrev] pvalid_range[OF pv off(2) doff] p pv by (simp add: prev_ok_def)
  then show "index (trace ! d) (kPrev + off) = Inr x'" using pf d' by (simp add: x'_def)
  have b': "0 \<le> x'" "kPrev \<le> x'" using start_fr_bounds[OF vk, of a b] by (simp_all add: x'_def)
  then show "0 \<le> x'" "0 \<le> x' - kPrev" by simp_all
  let ?c = "start_x (prevf a b d) (int d) (x - y)"
  have c: "?c = (if down then x' else x' + 1)"
    unfolding start_x_def down_def kPrev_def x'_def pf using d' by (auto simp: down_def)
  have cx: "?c \<le> x" using fr_ge_start[OF v, of a b] x by simp
  show "x' \<le> int (length a)" using c cx xy(1) by (auto split: if_splits)
  show "x' - kPrev \<le> int (length b)" using c cx xy(2) by (auto simp: kPrev_def split: if_splits)
  have cells: "\<forall>i. ?c \<le> i \<and> i < x \<longrightarrow> same_line a b i (i - (x - y))"
    using fr_cells[OF v, of a b] x by auto
  show "seg_ok a b x' (x' - kPrev) x y"
    unfolding seg_ok_def
  proof (intro conjI)
    show "\<exists>x1 y1. x' \<le> x1 \<and> x' - kPrev \<le> y1 \<and> (x1 = x' \<or> y1 = x' - kPrev) \<and> x1 - y1 = x - y \<and>
        x1 \<le> x \<and> x1 \<le> int (length a) \<and> y1 \<le> int (length b) \<and>
        (\<forall>i. x1 \<le> i \<and> i < x \<longrightarrow> same_line a b i (i - (x - y)))"
      using c cx xy cells by (intro exI[of _ ?c] exI[of _ "?c - (x - y)"]) (auto simp: kPrev_def split: if_splits)
  qed (use b' in simp_all)
qed

section \<open>Backtracking returns a path\<close>

lemma index_nat: "n < length xs \<Longrightarrow> index xs (int n) = Inr (xs ! n)"
  by (simp add: index_def)

lemma store_nat: "n < length xs \<Longrightarrow> store xs (int n) v = Inr (xs[n := v])"
  by (simp add: store_def)

lemma backtrack_loop_exit:
  "\<not> (x > 0 \<and> y > 0 \<and> d > 0) \<Longrightarrow> backtrack_loop trace offset x y d snakes = Inr (x, y, d, snakes)"
  by (subst backtrack_loop.simps) auto

lemma backtrack_loop_skip:
  "x > 0 \<Longrightarrow> y > 0 \<Longrightarrow> d > 0 \<Longrightarrow> index trace d = Inr [] \<Longrightarrow>
   backtrack_loop trace offset x y d snakes = backtrack_loop trace offset x y (d - 1) snakes"
  by (subst backtrack_loop.simps) simp

lemma backtrack_loop_step:
  "x > 0 \<Longrightarrow> y > 0 \<Longrightarrow> d > 0 \<Longrightarrow> index trace d = Inr V \<Longrightarrow> length V \<noteq> 0 \<Longrightarrow>
   store snakes d [x, y] = Inr snakes' \<Longrightarrow> go_down V offset d (x - y) = Inr down \<Longrightarrow>
   kPrev = (if down then x - y + 1 else x - y - 1) \<Longrightarrow> index V (kPrev + offset) = Inr x' \<Longrightarrow>
   backtrack_loop trace offset x y d snakes =
     backtrack_loop trace offset x' (x' - kPrev) (d - 1) snakes'"
  by (subst backtrack_loop.simps) (simp add: Let_def)

lemma on_path_pred:
  assumes "on_path a b (Suc d) x y" "Dmin a b < Suc d"
  shows "on_path a b d x y"
proof -
  from assms have xy: "x = int (length a)" "y = int (length b)" by (auto simp: on_path_def)
  show ?thesis
  proof (cases "Dmin a b < d")
    case True
    with xy show ?thesis by (simp add: on_path_def)
  next
    case False
    with assms(2) have "d = Dmin a b" by simp
    with xy show ?thesis using Dmin_valid[of a b] fr_Dmin[of a b] by (simp add: on_path_def)
  qed
qed

lemma exit_cost:
  assumes op: "on_path a b d x y" and d: "d \<le> length a + length b"
    and b: "0 \<le> x" "0 \<le> y" and e: "x = 0 \<or> y = 0 \<or> d = 0"
  shows "\<bar>x - y\<bar> = int (min d (Dmin a b))"
proof (cases "d \<le> Dmin a b")
  case True
  with op have v: "valid d (x - y)" and xe: "x = fr a b d (x - y)" by (auto simp: on_path_def)
  from fr_lower[OF v, of a b] xe have l: "int d + (x - y) \<le> 2 * x" "int d - (x - y) \<le> 2 * y" by simp_all
  from v have r: "- int d \<le> x - y" "x - y \<le> int d" by (simp_all add: valid_def)
  from e l r b have "\<bar>x - y\<bar> = int d" by auto
  with True show ?thesis by simp
next
  case False
  with op have xy: "x = int (length a)" "y = int (length b)" by (auto simp: on_path_def)
  from False e have "x = 0 \<or> y = 0" by auto
  with xy have "\<bar>int (length a) - int (length b)\<bar> = int (length a + length b)" by auto
  moreover have "\<bar>int (length a) - int (length b)\<bar> \<le> int (Dmin a b)"
  proof -
    from Dmin_valid[of a b] have "- int (Dmin a b) \<le> int (length a) - int (length b)"
      "int (length a) - int (length b) \<le> int (Dmin a b)" by (simp_all add: valid_def)
    then show ?thesis by arith
  qed
  ultimately have "length a + length b \<le> Dmin a b" by simp
  with False d show ?thesis by simp
qed

lemma bt_loop:
  assumes gt: "good_trace a b trace" and off: "off = int (length b) + int (length a)" "1 \<le> off"
  shows "d \<le> length a + length b \<Longrightarrow> on_path a b d x y \<Longrightarrow>
         0 \<le> x \<Longrightarrow> x \<le> int (length a) \<Longrightarrow> 0 \<le> y \<Longrightarrow> y \<le> int (length b) \<Longrightarrow>
         length snakes = length a + length b + 1 \<Longrightarrow> (\<forall>d' \<le> d. snakes ! d' = []) \<Longrightarrow>
         path_ok a b x y (pts_of (drop (Suc d) snakes)) \<Longrightarrow>
         path_cost x y (pts_of (drop (Suc d) snakes)) = int (Dmin a b) - int (min d (Dmin a b)) \<Longrightarrow>
         \<exists>x' y' d' snakes'.
            backtrack_loop trace off x y (int d) snakes = Inr (x', y', int d', snakes') \<and>
            0 \<le> x' \<and> 0 \<le> y' \<and> d' < length snakes' \<and>
            path_ok a b 0 0 (pts_of (snakes'[d' := [x', y']])) \<and>
            path_cost 0 0 (pts_of (snakes'[d' := [x', y']])) = int (Dmin a b)"
proof (induction d arbitrary: x y snakes)
  case 0
  have ex: "backtrack_loop trace off x y (int 0) snakes = Inr (x, y, int 0, snakes)"
    by (rule backtrack_loop_exit) simp
  have seg: "seg_ok a b 0 0 x y"
  proof (cases "x = 0 \<or> y = 0")
    case True
    then show ?thesis using "0.prems" by (intro seg_ok_first) simp_all
  next
    case False
    show ?thesis by (rule seg_ok_depth0[OF "0.prems"(2)])
  qed
  have pe: "pts_of (snakes[0 := [x, y]]) = (x, y) # pts_of (drop (Suc 0) snakes)"
    using "0.prems" by (intro pts_of_update) simp_all
  have pk: "path_ok a b 0 0 (pts_of (snakes[0 := [x, y]]))" using seg "0.prems" pe by simp
  have "\<bar>x - y\<bar> = int (min 0 (Dmin a b))"
    using exit_cost[OF "0.prems"(2,1,3,5)] by simp
  then have pc: "path_cost 0 0 (pts_of (snakes[0 := [x, y]])) = int (Dmin a b)"
    using "0.prems"(10) pe by simp
  show ?case using ex "0.prems" pk pc
    by (intro exI[of _ x] exI[of _ y] exI[of _ 0] exI[of _ snakes]) simp
next
  case (Suc d)
  show ?case
  proof (cases "x > 0 \<and> y > 0")
    case False
    have ex: "backtrack_loop trace off x y (int (Suc d)) snakes = Inr (x, y, int (Suc d), snakes)"
      using False by (intro backtrack_loop_exit) simp
    have seg: "seg_ok a b 0 0 x y" using False Suc.prems by (intro seg_ok_first) auto
    have pe: "pts_of (snakes[Suc d := [x, y]]) = (x, y) # pts_of (drop (Suc (Suc d)) snakes)"
      using Suc.prems by (intro pts_of_update) simp_all
    have pk: "path_ok a b 0 0 (pts_of (snakes[Suc d := [x, y]]))" using seg Suc.prems pe by simp
    have z: "x = 0 \<or> y = 0 \<or> Suc d = 0" using False Suc.prems(3,5) by auto
    have "\<bar>x - y\<bar> = int (min (Suc d) (Dmin a b))"
      by (rule exit_cost[OF Suc.prems(2,1,3,5) z])
    then have pc: "path_cost 0 0 (pts_of (snakes[Suc d := [x, y]])) = int (Dmin a b)"
      using Suc.prems(10) pe by simp
    show ?thesis using ex Suc.prems pk pc
      by (intro exI[of _ x] exI[of _ y] exI[of _ "Suc d"] exI[of _ snakes]) simp
  next
    case pos: True
    have dpos: "int (Suc d) > 0" by simp
    have dm: "int (Suc d) - 1 = int d" by simp
    show ?thesis
    proof (cases "Suc d \<le> Dmin a b")
      case False
      then have lt: "Dmin a b < Suc d" by simp
      have "trace ! Suc d = []" using gt lt Suc.prems(1) by (simp add: good_trace_def)
      moreover have "index trace (int (Suc d)) = Inr (trace ! Suc d)"
        using gt Suc.prems(1) by (intro index_nat) (simp add: good_trace_def)
      ultimately have idx: "index trace (int (Suc d)) = Inr []" by simp
      have step: "backtrack_loop trace off x y (int (Suc d)) snakes = backtrack_loop trace off x y (int d) snakes"
        using backtrack_loop_skip[OF _ _ dpos idx, of x y off snakes] pos dm by simp
      have op: "on_path a b d x y" by (rule on_path_pred[OF Suc.prems(2) lt])
      have emp: "\<forall>d' \<le> d. snakes ! d' = []" using Suc.prems(8) by simp
      have pe: "pts_of (drop (Suc d) snakes) = pts_of (drop (Suc (Suc d)) snakes)"
        using Suc.prems(7,8) Suc.prems(1) by (intro pts_of_drop_empty) simp_all
      have pk: "path_ok a b x y (pts_of (drop (Suc d) snakes))" using Suc.prems(9) pe by simp
      have "min (Suc d) (Dmin a b) = min d (Dmin a b)" using lt by simp
      then have pc: "path_cost x y (pts_of (drop (Suc d) snakes)) = int (Dmin a b) - int (min d (Dmin a b))"
        using Suc.prems(10) pe by simp
      from Suc.IH[OF _ op Suc.prems(3,4,5,6,7) emp pk pc] Suc.prems(1) step show ?thesis by simp
    next
      case le: True
      from Suc.prems(2) le have v: "valid (Suc d) (x - y)" and xe: "x = fr a b (Suc d) (x - y)"
        by (auto simp: on_path_def)
      note st = bt_step[OF gt off _ le v xe Suc.prems(4,6)]
      let ?down = "x - y = - int (Suc d) \<or>
         (x - y \<noteq> int (Suc d) \<and> prevf a b (Suc d) (x - y - 1) < prevf a b (Suc d) (x - y + 1))"
      let ?kPrev = "if ?down then x - y + 1 else x - y - 1"
      let ?x' = "fr a b (Suc d - 1) ?kPrev"
      let ?sn = "snakes[Suc d := [x, y]]"
      have sto: "store snakes (int (Suc d)) [x, y] = Inr ?sn"
        using Suc.prems(1,7) by (intro store_nat) simp
      have step: "backtrack_loop trace off x y (int (Suc d)) snakes =
                  backtrack_loop trace off ?x' (?x' - ?kPrev) (int d) ?sn"
        using backtrack_loop_step[OF _ _ dpos st(1) st(2) sto st(3) refl st(4)] pos dm by simp
      have op: "on_path a b d ?x' (?x' - ?kPrev)"
        using st(5) le by (simp add: on_path_def)
      have emp: "\<forall>d' \<le> d. ?sn ! d' = []" using Suc.prems(8) by simp
      have len: "length ?sn = length a + length b + 1" using Suc.prems(7) by simp
      have dr: "drop (Suc d) ?sn = [x, y] # drop (Suc (Suc d)) snakes"
        using Suc.prems(1,7) by (simp add: Cons_nth_drop_Suc[symmetric])
      have pk: "path_ok a b ?x' (?x' - ?kPrev) (pts_of (drop (Suc d) ?sn))"
        using st(10) Suc.prems(9) dr by simp
      have "path_cost ?x' (?x' - ?kPrev) (pts_of (drop (Suc d) ?sn)) =
              \<bar>x - y - ?kPrev\<bar> + path_cost x y (pts_of (drop (Suc (Suc d)) snakes))"
        unfolding dr by simp
      also have "\<dots> = 1 + (int (Dmin a b) - int (min (Suc d) (Dmin a b)))"
        using st(11) Suc.prems(10) by simp
      also have "\<dots> = int (Dmin a b) - int (min d (Dmin a b))" using le by simp
      finally have pc: "path_cost ?x' (?x' - ?kPrev) (pts_of (drop (Suc d) ?sn)) =
              int (Dmin a b) - int (min d (Dmin a b))" .
      from Suc.IH[OF _ op st(6) st(8) st(7) st(9) len emp pk pc] Suc.prems(1) step show ?thesis by simp
    qed
  qed
qed

lemma backtrack_good:
  assumes gt: "good_trace a b trace" and ne: "a \<noteq> [] \<or> b \<noteq> []"
  shows "\<exists>snakes. backtrack trace (int (length a)) (int (length b)) (int (length b) + int (length a))
                    = Inr snakes \<and> path_ok a b 0 0 (pts_of snakes) \<and>
                  path_cost 0 0 (pts_of snakes) = int (Dmin a b)"
proof -
  let ?off = "int (length b) + int (length a)"
  let ?n = "length a + length b"
  let ?sn = "replicate (length trace) ([]::int list)"
  have off1: "1 \<le> ?off" using ne by (cases a; cases b) auto
  have lt: "length trace = ?n + 1" using gt by (simp add: good_trace_def)
  have op: "on_path a b ?n (int (length a)) (int (length b))"
  proof (cases "Dmin a b < ?n")
    case True
    then show ?thesis by (simp add: on_path_def)
  next
    case False
    then have "?n = Dmin a b" using Dmin_le[of a b] by simp
    then show ?thesis using Dmin_valid[of a b] fr_Dmin[of a b] by (simp add: on_path_def)
  qed
  have emp: "\<forall>d' \<le> ?n. ?sn ! d' = []"
  proof (intro allI impI)
    fix d' assume "d' \<le> ?n"
    then have "d' < length trace" using lt by simp
    then show "?sn ! d' = []" by (rule nth_replicate)
  qed
  have dr: "drop (Suc ?n) ?sn = []" using lt by simp
  have pk: "path_ok a b (int (length a)) (int (length b)) (pts_of (drop (Suc ?n) ?sn))"
    unfolding dr by simp
  have "min ?n (Dmin a b) = Dmin a b" using Dmin_le[of a b] by simp
  then have pc: "path_cost (int (length a)) (int (length b)) (pts_of (drop (Suc ?n) ?sn))
                  = int (Dmin a b) - int (min ?n (Dmin a b))"
    unfolding dr by simp
  have ls: "length ?sn = ?n + 1" using lt by simp
  from bt_loop[OF gt refl off1 _ op _ _ _ _ ls emp pk pc]
  obtain x' y' d' snakes' where
    r: "backtrack_loop trace ?off (int (length a)) (int (length b)) (int ?n) ?sn = Inr (x', y', int d', snakes')"
    and b: "0 \<le> x'" "0 \<le> y'" "d' < length snakes'"
    and p: "path_ok a b 0 0 (pts_of (snakes'[d' := [x', y']]))"
    and c: "path_cost 0 0 (pts_of (snakes'[d' := [x', y']])) = int (Dmin a b)"
    by auto
  have "int (length trace) - 1 = int ?n" using lt by simp
  then have "backtrack trace (int (length a)) (int (length b)) ?off = Inr (snakes'[d' := [x', y']])"
    using r b by (simp add: backtrack_def store_def)
  with p c show ?thesis by blast
qed

section \<open>Backtracking: negative coordinates\<close>





section \<open>The loops of Operations and the slices of ApplyEdits\<close>

lemma delete_loop_none: "\<not> k0 > x - y \<Longrightarrow> delete_loop k0 M x y op = (x, op)"
  by (subst delete_loop.simps) simp

lemma delete_loop_run:
  "k0 > x - y \<Longrightarrow> k0 + y \<le> M \<Longrightarrow>
   delete_loop k0 M x y op = (k0 + y, Some (case op of None \<Rightarrow> new_op Delete x y | Some p \<Rightarrow> p))"
proof (induction k0 M x y op rule: delete_loop.induct)
  case (1 k0 M x y op)
  let ?op' = "case op of None \<Rightarrow> Some \<lparr>Kind = Delete, Content = [], I1 = x, I2 = 0, J1 = y\<rparr> | Some p \<Rightarrow> Some p"
  have op': "?op' = Some (case op of None \<Rightarrow> new_op Delete x y | Some p \<Rightarrow> p)"
    by (cases op) (simp_all add: new_op_def)
  show ?case
  proof (cases "x + 1 = M")
    case True
    with "1.prems" have "k0 + y = x + 1" by simp
    then show ?thesis using "1.prems" True op' by (subst delete_loop.simps) (simp add: Let_def)
  next
    case False
    have step: "delete_loop k0 M x y op = delete_loop k0 M (x + 1) y ?op'"
      using "1.prems" False by (subst delete_loop.simps) (simp add: Let_def)
    show ?thesis
    proof (cases "k0 > x + 1 - y")
      case True
      from "1.IH"[OF "1.prems"(1) refl False True "1.prems"(2)]
      have "delete_loop k0 M (x + 1) y ?op' =
              (k0 + y, Some (case ?op' of None \<Rightarrow> new_op Delete (x + 1) y | Some p \<Rightarrow> p))" .
      then show ?thesis using step op' by simp
    next
      case False
      with "1.prems" have "k0 + y = x + 1" by simp
      moreover have "delete_loop k0 M (x + 1) y ?op' = (x + 1, ?op')"
        using False by (rule delete_loop_none)
      ultimately show ?thesis using step op' by simp
    qed
  qed
qed

lemma insert_loop_none: "\<not> k0 < x - y \<Longrightarrow> insert_loop k0 x y op = (y, op)"
  by (subst insert_loop.simps) simp

lemma insert_loop_run:
  "k0 < x - y \<Longrightarrow>
   insert_loop k0 x y op = (x - k0, Some (case op of None \<Rightarrow> new_op Insert x y | Some p \<Rightarrow> p))"
proof (induction k0 x y op rule: insert_loop.induct)
  case (1 k0 x y op)
  let ?op' = "case op of None \<Rightarrow> Some \<lparr>Kind = Insert, Content = [], I1 = x, I2 = 0, J1 = y\<rparr> | Some p \<Rightarrow> Some p"
  have op': "?op' = Some (case op of None \<Rightarrow> new_op Insert x y | Some p \<Rightarrow> p)"
    by (cases op) (simp_all add: new_op_def)
  have step: "insert_loop k0 x y op = insert_loop k0 x (y + 1) ?op'"
    using "1.prems" by (subst insert_loop.simps) simp
  show ?case
  proof (cases "k0 < x - (y + 1)")
    case True
    from "1.IH"[OF "1.prems" True]
    have "insert_loop k0 x (y + 1) ?op' =
            (x - k0, Some (case ?op' of None \<Rightarrow> new_op Insert x (y + 1) | Some p \<Rightarrow> p))" .
    then show ?thesis using step op' by simp
  next
    case False
    with "1.prems" have "x - k0 = y + 1" by simp
    moreover have "insert_loop k0 x (y + 1) ?op' = (y + 1, ?op')"
      using False by (rule insert_loop_none)
    ultimately show ?thesis using step op' by simp
  qed
qed

lemma equal_loop_eq: "equal_loop s0 x y = (if x < s0 then (s0, y + (s0 - x)) else (x, y))"
proof (induction s0 x y rule: equal_loop.induct)
  case (1 s0 x y)
  show ?case
  proof (cases "x < s0")
    case False
    then show ?thesis by (subst equal_loop.simps) simp
  next
    case True
    have "equal_loop s0 x y = equal_loop s0 (x + 1) (y + 1)"
      using True by (subst equal_loop.simps) simp
    also have "\<dots> = (if x + 1 < s0 then (s0, y + 1 + (s0 - (x + 1))) else (x + 1, y + 1))"
      by (rule "1.IH"[OF True])
    also have "\<dots> = (s0, y + (s0 - x))" using True by auto
    finally show ?thesis using True by simp
  qed
qed

lemma apply_loop_snoc:
  "apply_loop a (ops @ [op]) bs p =
     (case apply_loop a ops bs p of Inl e \<Rightarrow> Inl e | Inr (bs', p') \<Rightarrow> apply_loop a [op] bs' p')"
  by (induction ops arbitrary: bs p) (auto split: sum.splits)

lemma slice_part: "0 \<le> lo \<Longrightarrow> lo \<le> hi \<Longrightarrow> hi \<le> int (length xs) \<Longrightarrow> slice xs lo hi = Inr (part xs lo hi)"
  by (simp add: slice_def part_def)

lemma part_empty [simp]: "part xs lo lo = []"
  by (simp add: part_def)

lemma part_append:
  "0 \<le> lo \<Longrightarrow> lo \<le> mid \<Longrightarrow> mid \<le> hi \<Longrightarrow> part xs lo hi = part xs lo mid @ part xs mid hi"
proof -
  assume h: "0 \<le> lo" "lo \<le> mid" "mid \<le> hi"
  have e1: "nat (hi - lo) = nat (mid - lo) + nat (hi - mid)" using h by arith
  have e2: "nat (mid - lo) + nat lo = nat mid" using h by arith
  have "take (nat (mid - lo) + nat (hi - mid)) (drop (nat lo) xs) =
        take (nat (mid - lo)) (drop (nat lo) xs) @
        take (nat (hi - mid)) (drop (nat (mid - lo)) (drop (nat lo) xs))"
    by (rule take_add)
  also have "drop (nat (mid - lo)) (drop (nat lo) xs) = drop (nat mid) xs"
    by (simp only: drop_drop e2)
  finally show ?thesis unfolding part_def e1 .
qed

lemma part_prefix: "0 \<le> hi \<Longrightarrow> part xs 0 hi = take (nat hi) xs"
  by (simp add: part_def)

lemma part_all: "part xs 0 (int (length xs)) = xs"
  by (simp add: part_def)

lemma length_part: "0 \<le> lo \<Longrightarrow> lo \<le> hi \<Longrightarrow> hi \<le> int (length xs) \<Longrightarrow> length (part xs lo hi) = nat (hi - lo)"
  by (simp add: part_def)

lemma nth_part:
  "0 \<le> lo \<Longrightarrow> lo \<le> hi \<Longrightarrow> hi \<le> int (length xs) \<Longrightarrow> n < nat (hi - lo) \<Longrightarrow>
   part xs lo hi ! n = xs ! nat (lo + int n)"
proof -
  assume h: "0 \<le> lo" "lo \<le> hi" "hi \<le> int (length xs)" "n < nat (hi - lo)"
  have "nat lo + n = nat (lo + int n)" using h by arith
  then show ?thesis using h by (simp add: part_def)
qed

lemma catch_up_part:
  "0 \<le> lo \<Longrightarrow> lo \<le> hi \<Longrightarrow> hi \<le> int (length a) \<Longrightarrow> catch_up a bs lo hi = Inr (bs @ part a lo hi)"
  by (cases "lo = hi") (simp_all add: catch_up_def slice_part)

lemma lineEq_refl: "lineEq s s"
  by (simp add: lineEq_def)

lemma list_all2_lineEq_refl: "list_all2 lineEq xs xs"
  by (simp add: list_all2_refl lineEq_refl)

lemma run_lineEq:
  assumes b: "0 \<le> x" "0 \<le> y" "x \<le> s0" "s0 \<le> int (length a)" "y + (s0 - x) \<le> int (length b)"
    and cells: "\<forall>i. x \<le> i \<and> i < s0 \<longrightarrow> same_line a b i (i - (x - y))"
  shows "list_all2 lineEq (part a x s0) (part b y (y + (s0 - x)))"
proof (rule list_all2_all_nthI)
  show "length (part a x s0) = length (part b y (y + (s0 - x)))"
    using b by (simp add: length_part)
next
  fix n assume "n < length (part a x s0)"
  then have n: "n < nat (s0 - x)" using b by (simp add: length_part)
  then have n': "n < nat (y + (s0 - x) - y)" by simp
  have "x \<le> x + int n \<and> x + int n < s0" using n by arith
  with cells have "same_line a b (x + int n) (x + int n - (x - y))" by blast
  moreover have "x + int n - (x - y) = y + int n" by arith
  ultimately have "lineEq (a ! nat (x + int n)) (b ! nat (y + int n))" by (simp add: same_line_def)
  moreover have "part a x s0 ! n = a ! nat (x + int n)" using b n by (intro nth_part) simp_all
  moreover have "part b y (y + (s0 - x)) ! n = b ! nat (y + int n)" using b n' by (intro nth_part) simp_all
  ultimately show "lineEq (part a x s0 ! n) (part b y (y + (s0 - x)) ! n)" by simp
qed

section \<open>The operations reproduce the target\<close>

lemma ops_shape_Nil: "ops_shape [] 0"
  by (simp add: ops_shape_def)

lemma ops_shape_mono: "ops_shape sol x \<Longrightarrow> x \<le> x' \<Longrightarrow> ops_shape sol x'"
  by (auto simp: ops_shape_def list_all_iff)

lemma ops_shape_snoc:
  "ops_shape sol x \<Longrightarrow> 0 \<le> x \<Longrightarrow> I1 p = x \<Longrightarrow> x \<le> I2 p \<Longrightarrow> ops_shape (sol @ [p]) (I2 p)"
  by (auto simp: ops_shape_def list_all_iff sorted_wrt_append)

lemma ops_cost_Nil: "ops_cost [] = 0"
  by (simp add: ops_cost_def)

lemma ops_cost_snoc: "ops_cost (sol @ [p]) = ops_cost sol + op_lines p"
  by (simp add: ops_cost_def)

lemma inv_init: "ops_inv a b [] 0 0"
  by (simp add: ops_inv_def part_def ops_shape_Nil)

lemma inv_delete:
  assumes i: "ops_inv a b sol x y" and b: "x < x1" "x1 \<le> int (length a)"
  shows "ops_inv a b (sol @ [(new_op Delete x y)\<lparr>I2 := x1\<rparr>]) x1 y"
proof -
  from i obtain bs p where r: "apply_loop a sol [] 0 = Inr (bs, p)" and p: "0 \<le> p" "p \<le> x"
    and eq: "list_all2 lineEq (bs @ part a p x) (part b 0 y)" and n: "int (length sol) \<le> x + y"
    and sh: "ops_shape sol x"
    by (auto simp: ops_inv_def)
  have sh': "ops_shape (sol @ [(new_op Delete x y)\<lparr>I2 := x1\<rparr>]) x1"
    using ops_shape_snoc[OF sh, of "(new_op Delete x y)\<lparr>I2 := x1\<rparr>"] p b by (simp add: new_op_def)
  have c: "catch_up a bs p x = Inr (bs @ part a p x)" using p b by (intro catch_up_part) simp_all
  have "apply_loop a (sol @ [(new_op Delete x y)\<lparr>I2 := x1\<rparr>]) [] 0 = Inr (bs @ part a p x, x1)"
    by (simp add: apply_loop_snoc r c new_op_def)
  moreover have "list_all2 lineEq ((bs @ part a p x) @ part a x1 x1) (part b 0 y)" using eq by simp
  ultimately show ?thesis using p b n sh' unfolding ops_inv_def
    by (intro conjI exI[of _ "bs @ part a p x"] exI[of _ x1]) simp_all
qed

lemma inv_insert:
  assumes i: "ops_inv a b sol x y" and b: "0 \<le> x" "x \<le> int (length a)" "0 \<le> y" "y < y1" "y1 \<le> int (length b)"
  shows "ops_inv a b (sol @ [(new_op Insert x y)\<lparr>I2 := x, Content := part b y y1\<rparr>]) x y1"
proof -
  from i obtain bs p where r: "apply_loop a sol [] 0 = Inr (bs, p)" and p: "0 \<le> p" "p \<le> x"
    and eq: "list_all2 lineEq (bs @ part a p x) (part b 0 y)" and n: "int (length sol) \<le> x + y"
    and sh: "ops_shape sol x"
    by (auto simp: ops_inv_def)
  have sh': "ops_shape (sol @ [(new_op Insert x y)\<lparr>I2 := x, Content := part b y y1\<rparr>]) x"
    using ops_shape_snoc[OF sh, of "(new_op Insert x y)\<lparr>I2 := x, Content := part b y y1\<rparr>"] b
    by (simp add: new_op_def)
  have c: "catch_up a bs p x = Inr (bs @ part a p x)" using p b by (intro catch_up_part) simp_all
  have ap: "apply_loop a (sol @ [(new_op Insert x y)\<lparr>I2 := x, Content := part b y y1\<rparr>]) [] 0
          = Inr ((bs @ part a p x) @ part b y y1, x)"
    by (simp add: apply_loop_snoc r c new_op_def)
  have "part b 0 y1 = part b 0 y @ part b y y1" using b by (intro part_append) simp_all
  moreover have "list_all2 lineEq ((bs @ part a p x) @ part b y y1) (part b 0 y @ part b y y1)"
    by (rule list_all2_appendI[OF eq list_all2_lineEq_refl])
  ultimately have "list_all2 lineEq (((bs @ part a p x) @ part b y y1) @ part a x x) (part b 0 y1)"
    by simp
  with ap show ?thesis using p b n sh' unfolding ops_inv_def
    by (intro conjI exI[of _ "(bs @ part a p x) @ part b y y1"] exI[of _ x]) simp_all
qed

lemma inv_equal:
  assumes i: "ops_inv a b sol x y" and b: "0 \<le> x" "0 \<le> y" "x \<le> s0" "s0 \<le> int (length a)"
      "y + (s0 - x) \<le> int (length b)"
    and cells: "\<forall>i. x \<le> i \<and> i < s0 \<longrightarrow> same_line a b i (i - (x - y))"
  shows "ops_inv a b sol s0 (y + (s0 - x))"
proof -
  from i obtain bs p where r: "apply_loop a sol [] 0 = Inr (bs, p)" and p: "0 \<le> p" "p \<le> x"
    and eq: "list_all2 lineEq (bs @ part a p x) (part b 0 y)" and n: "int (length sol) \<le> x + y"
    and sh: "ops_shape sol x"
    by (auto simp: ops_inv_def)
  have sh': "ops_shape sol s0" using ops_shape_mono[OF sh] b by simp
  have pa: "part a p s0 = part a p x @ part a x s0" using p b by (intro part_append) simp_all
  have pb: "part b 0 (y + (s0 - x)) = part b 0 y @ part b y (y + (s0 - x))"
    using b by (intro part_append) simp_all
  have "list_all2 lineEq (part a x s0) (part b y (y + (s0 - x)))" by (rule run_lineEq[OF b cells])
  then have "list_all2 lineEq ((bs @ part a p x) @ part a x s0) (part b 0 y @ part b y (y + (s0 - x)))"
    by (rule list_all2_appendI[OF eq])
  then have "list_all2 lineEq (bs @ part a p s0) (part b 0 (y + (s0 - x)))"
    unfolding pa pb by simp
  then show ?thesis using r p b n sh' unfolding ops_inv_def
    by (intro conjI exI[of _ bs] exI[of _ p]) simp_all
qed


lemma add_None: "add b cap None i2 j2 sol = Inr sol"
  by (simp add: add_def)

lemma add_Delete:
  "int (length sol) < cap \<Longrightarrow>
   add b cap (Some (new_op Delete x y)) i2 j2 sol = Inr (sol @ [(new_op Delete x y)\<lparr>I2 := i2\<rparr>])"
  by (simp add: add_def new_op_def)

lemma add_Insert:
  "int (length sol) < cap \<Longrightarrow> 0 \<le> y \<Longrightarrow> y \<le> j2 \<Longrightarrow> j2 \<le> int (length b) \<Longrightarrow>
   add b cap (Some (new_op Insert x y)) i2 j2 sol
     = Inr (sol @ [(new_op Insert x y)\<lparr>I2 := i2, Content := part b y j2\<rparr>])"
  by (simp add: add_def new_op_def slice_part)

lemma seg_ok_target:
  assumes "seg_ok a b x y s0 s1"
  shows "0 \<le> s0 \<and> s0 \<le> int (length a) \<and> 0 \<le> s1 \<and> s1 \<le> int (length b) \<and> x \<le> s0 \<and> y \<le> s1"
proof -
  from assms obtain x1 y1 where h: "0 \<le> x" "0 \<le> y" "x \<le> x1" "y \<le> y1" "x1 - y1 = s0 - s1" "x1 \<le> s0"
      "x1 \<le> int (length a)" "y1 \<le> int (length b)"
      and cells: "\<forall>i. x1 \<le> i \<and> i < s0 \<longrightarrow> same_line a b i (i - (s0 - s1))"
    by (auto simp: seg_ok_def)
  show ?thesis
  proof (cases "x1 < s0")
    case False
    with h show ?thesis by simp
  next
    case True
    then have "x1 \<le> s0 - 1 \<and> s0 - 1 < s0" by arith
    with cells have "same_line a b (s0 - 1) (s0 - 1 - (s0 - s1))" by blast
    then have "s0 - 1 < int (length a)" "s0 - 1 - (s0 - s1) < int (length b)"
      by (simp_all add: same_line_def)
    with h True show ?thesis by simp
  qed
qed

text \<open>What the body of the loop over the snakes does for one snake.\<close>

lemma snake_body:
  assumes seg: "seg_ok a b x y s0 s1" and i: "ops_inv a b sol x y"
    and xy: "x \<le> int (length a)" "y \<le> int (length b)"
    and M: "M = int (length a)" and N: "N = int (length b)"
  shows "\<exists>x1 op1 sol1 y1 op2 sol2.
           delete_loop (s0 - s1) M x y None = (x1, op1) \<and>
           add b (M + N) op1 x1 y sol = Inr sol1 \<and>
           insert_loop (s0 - s1) x1 y None = (y1, op2) \<and>
           add b (M + N) op2 x1 y1 sol1 = Inr sol2 \<and>
           equal_loop s0 x1 y1 = (s0, s1) \<and>
           ops_inv a b sol2 s0 s1 \<and>
           ops_cost sol2 = ops_cost sol + \<bar>s0 - s1 - (x - y)\<bar>"
proof -
  from seg obtain x1 y1 where h: "0 \<le> x" "0 \<le> y" "x \<le> x1" "y \<le> y1" "x1 = x \<or> y1 = y"
      "x1 - y1 = s0 - s1" "x1 \<le> s0" "x1 \<le> int (length a)" "y1 \<le> int (length b)"
      and cells: "\<forall>i. x1 \<le> i \<and> i < s0 \<longrightarrow> same_line a b i (i - (s0 - s1))"
    by (auto simp: seg_ok_def)
  have tg: "s0 \<le> int (length a)" "s1 \<le> int (length b)" using seg_ok_target[OF seg] by simp_all
  have n: "int (length sol) \<le> x + y" using i by (simp add: ops_inv_def)
  have s1: "s1 = y1 + (s0 - x1)" using h(6) by arith
  have cells': "\<forall>i. x1 \<le> i \<and> i < s0 \<longrightarrow> same_line a b i (i - (x1 - y1))" using cells h(6) by simp
  have eql: "equal_loop s0 x1 y1 = (s0, s1)" using h(7) s1 by (auto simp: equal_loop_eq)
  have fin: "ops_inv a b sol' s0 s1" if "ops_inv a b sol' x1 y1" for sol'
    using inv_equal[OF that _ _ h(7) tg(1) _ cells'] h tg s1 by simp
  consider (del) "x < x1" "y1 = y" | (ins) "x1 = x" "y < y1" | (none) "x1 = x" "y1 = y"
    using h by force
  then show ?thesis
  proof cases
    case del
    have k: "s0 - s1 > x - y" "s0 - s1 + y \<le> M" "s0 - s1 + y = x1" using del h M by simp_all
    have dl: "delete_loop (s0 - s1) M x y None = (x1, Some (new_op Delete x y))"
      using delete_loop_run[OF k(1,2), of None] k(3) by simp
    have cap: "int (length sol) < M + N" using n del h M N by simp
    have ad: "add b (M + N) (Some (new_op Delete x y)) x1 y sol = Inr (sol @ [(new_op Delete x y)\<lparr>I2 := x1\<rparr>])"
      by (rule add_Delete[OF cap])
    have ni: "\<not> s0 - s1 < x1 - y" using del h by arith
    have il: "insert_loop (s0 - s1) x1 y None = (y1, None)"
      using insert_loop_none[OF ni, of None] del by simp
    have i1: "ops_inv a b (sol @ [(new_op Delete x y)\<lparr>I2 := x1\<rparr>]) x1 y1"
      using inv_delete[OF i del(1) h(8)] del by simp
    have "op_lines ((new_op Delete x y)\<lparr>I2 := x1\<rparr>) = x1 - x" by (simp add: op_lines_def new_op_def)
    moreover have "\<bar>s0 - s1 - (x - y)\<bar> = x1 - x" using k del by simp
    ultimately have c: "ops_cost (sol @ [(new_op Delete x y)\<lparr>I2 := x1\<rparr>])
                         = ops_cost sol + \<bar>s0 - s1 - (x - y)\<bar>"
      by (simp add: ops_cost_snoc)
    show ?thesis using dl ad il add_None eql fin[OF i1] del c by auto
  next
    case ins
    have nd: "\<not> s0 - s1 > x - y" using ins h by arith
    have dl: "delete_loop (s0 - s1) M x y None = (x1, None)"
      using delete_loop_none[OF nd, of M None] ins by simp
    have k: "s0 - s1 < x1 - y" "x1 - (s0 - s1) = y1" using ins h by simp_all
    have il: "insert_loop (s0 - s1) x1 y None = (y1, Some (new_op Insert x1 y))"
      using insert_loop_run[OF k(1), of None] k(2) by simp
    have cap: "int (length sol) < M + N" using n ins h M N by simp
    have ad: "add b (M + N) (Some (new_op Insert x1 y)) x1 y1 sol
                = Inr (sol @ [(new_op Insert x1 y)\<lparr>I2 := x1, Content := part b y y1\<rparr>])"
      using add_Insert[OF cap h(2), of y1 b x1 x1] ins h by simp
    have i1: "ops_inv a b (sol @ [(new_op Insert x1 y)\<lparr>I2 := x1, Content := part b y y1\<rparr>]) x1 y1"
      using inv_insert[OF i h(1) xy(1) h(2) ins(2) h(9)] ins by simp
    have "length (part b y y1) = nat (y1 - y)" using h ins by (intro length_part) simp_all
    then have "op_lines ((new_op Insert x1 y)\<lparr>I2 := x1, Content := part b y y1\<rparr>) = y1 - y"
      using ins by (simp add: op_lines_def new_op_def)
    moreover have "\<bar>s0 - s1 - (x - y)\<bar> = y1 - y" using k ins by simp
    ultimately have c: "ops_cost (sol @ [(new_op Insert x1 y)\<lparr>I2 := x1, Content := part b y y1\<rparr>])
                         = ops_cost sol + \<bar>s0 - s1 - (x - y)\<bar>"
      by (simp add: ops_cost_snoc)
    show ?thesis using dl il ad add_None eql fin[OF i1] ins c by auto
  next
    case none
    have nd: "\<not> s0 - s1 > x - y" using none h by arith
    have dl: "delete_loop (s0 - s1) M x y None = (x1, None)"
      using delete_loop_none[OF nd, of M None] none by simp
    have ni: "\<not> s0 - s1 < x1 - y" using none h by arith
    have il: "insert_loop (s0 - s1) x1 y None = (y1, None)"
      using insert_loop_none[OF ni, of None] none by simp
    have i1: "ops_inv a b sol x1 y1" using i none by simp
    have c: "ops_cost sol = ops_cost sol + \<bar>s0 - s1 - (x - y)\<bar>" using none h by simp
    show ?thesis using dl il add_None eql fin[OF i1] c by auto
  qed
qed

lemma ops_loop_skip: "length snake < 2 \<Longrightarrow> ops_loop b M N (snake # rest) x y sol = ops_loop b M N rest x y sol"
  by simp

lemma ops_loop_Nil: "ops_loop b M N [] x y sol = Inr sol"
  by simp

lemma ops_loop_step:
  "\<not> length snake < 2 \<Longrightarrow>
   delete_loop (snake ! 0 - snake ! 1) M x y None = (x1, op1) \<Longrightarrow>
   add b (M + N) op1 x1 y sol = Inr sol1 \<Longrightarrow>
   insert_loop (snake ! 0 - snake ! 1) x1 y None = (y1, op2) \<Longrightarrow>
   add b (M + N) op2 x1 y1 sol1 = Inr sol2 \<Longrightarrow>
   equal_loop (snake ! 0) x1 y1 = (x2, y2) \<Longrightarrow>
   ops_loop b M N (snake # rest) x y sol =
     (if x2 \<ge> M \<and> y2 \<ge> N then Inr sol2 else ops_loop b M N rest x2 y2 sol2)"
  by (simp add: Let_def)

declare ops_loop.simps [simp del]

lemma pts_of_Cons:
  "pts_of (s # rest) = (if 2 \<le> length s then (s ! 0, s ! 1) # pts_of rest else pts_of rest)"
  by (simp add: pts_of_def)

lemma path_cost_end:
  "path_ok a b (int (length a)) (int (length b)) ps \<Longrightarrow>
   path_cost (int (length a)) (int (length b)) ps = 0"
proof (induction ps)
  case Nil
  show ?case by simp
next
  case (Cons s ps)
  then have seg: "seg_ok a b (int (length a)) (int (length b)) (fst s) (snd s)"
    and rest: "path_ok a b (fst s) (snd s) ps" by simp_all
  from seg_ok_target[OF seg] have e: "fst s = int (length a)" "snd s = int (length b)" by simp_all
  with rest Cons.IH show ?case by simp
qed

lemma ops_loop_good:
  assumes M: "M = int (length a)" and N: "N = int (length b)"
  shows "path_ok a b x y (pts_of snakes) \<Longrightarrow> 0 \<le> x \<Longrightarrow> x \<le> M \<Longrightarrow> 0 \<le> y \<Longrightarrow> y \<le> N \<Longrightarrow>
         ops_inv a b sol x y \<Longrightarrow>
         \<exists>sol'. ops_loop b M N snakes x y sol = Inr sol' \<and> ops_inv a b sol' M N \<and>
                ops_cost sol' = ops_cost sol + path_cost x y (pts_of snakes)"
proof (induction snakes arbitrary: x y sol)
  case Nil
  then show ?case using M N by (simp add: ops_loop_Nil)
next
  case (Cons snake rest)
  show ?case
  proof (cases "length snake < 2")
    case True
    then have pe: "pts_of (snake # rest) = pts_of rest" by (simp add: pts_of_Cons)
    with Cons.prems have "path_ok a b x y (pts_of rest)" by simp
    from Cons.IH[OF this Cons.prems(2-6)] True show ?thesis unfolding pe by (simp add: ops_loop_skip)
  next
    case False
    then have pe: "pts_of (snake # rest) = (snake ! 0, snake ! 1) # pts_of rest" by (simp add: pts_of_Cons)
    with Cons.prems have seg: "seg_ok a b x y (snake ! 0) (snake ! 1)"
      and rest: "path_ok a b (snake ! 0) (snake ! 1) (pts_of rest)" by simp_all
    from snake_body[OF seg Cons.prems(6) _ _ M N] Cons.prems M N
    obtain x1 op1 sol1 y1 op2 sol2 where
      s: "delete_loop (snake ! 0 - snake ! 1) M x y None = (x1, op1)"
         "add b (M + N) op1 x1 y sol = Inr sol1"
         "insert_loop (snake ! 0 - snake ! 1) x1 y None = (y1, op2)"
         "add b (M + N) op2 x1 y1 sol1 = Inr sol2"
         "equal_loop (snake ! 0) x1 y1 = (snake ! 0, snake ! 1)"
      and i2: "ops_inv a b sol2 (snake ! 0) (snake ! 1)"
      and c2: "ops_cost sol2 = ops_cost sol + \<bar>snake ! 0 - snake ! 1 - (x - y)\<bar>"
      by auto
    note step = ops_loop_step[OF False s, of rest]
    have tg: "0 \<le> snake ! 0" "snake ! 0 \<le> M" "0 \<le> snake ! 1" "snake ! 1 \<le> N"
      using seg_ok_target[OF seg] M N by simp_all
    have pc: "path_cost x y (pts_of (snake # rest)) =
                \<bar>snake ! 0 - snake ! 1 - (x - y)\<bar> + path_cost (snake ! 0) (snake ! 1) (pts_of rest)"
      unfolding pe by simp
    show ?thesis
    proof (cases "snake ! 0 \<ge> M \<and> snake ! 1 \<ge> N")
      case True
      with tg have e: "snake ! 0 = M" "snake ! 1 = N" by simp_all
      with i2 have i3: "ops_inv a b sol2 M N" by simp
      have "path_cost (snake ! 0) (snake ! 1) (pts_of rest) = 0"
        using path_cost_end[of a b "pts_of rest"] rest e M N by simp
      with c2 pc have c3: "ops_cost sol2 = ops_cost sol + path_cost x y (pts_of (snake # rest))" by simp
      have "ops_loop b M N (snake # rest) x y sol = Inr sol2"
        using True by (subst step) auto
      with i3 c3 show ?thesis by blast
    next
      case nf: False
      have e: "ops_loop b M N (snake # rest) x y sol = ops_loop b M N rest (snake ! 0) (snake ! 1) sol2"
        using nf by (subst step) auto
      from Cons.IH[OF rest tg i2] obtain sol' where
        r: "ops_loop b M N rest (snake ! 0) (snake ! 1) sol2 = Inr sol'" and i3: "ops_inv a b sol' M N"
        and c3: "ops_cost sol' = ops_cost sol2 + path_cost (snake ! 0) (snake ! 1) (pts_of rest)" by blast
      have "ops_cost sol' = ops_cost sol + path_cost x y (pts_of (snake # rest))"
        using c2 c3 pc by simp
      with r i3 show ?thesis unfolding e by blast
    qed
  qed
qed




section \<open>One empty side\<close>

lemma ops_loop_skip_empties:
  "ops_loop b M N (replicate n [] @ rest) x y sol = ops_loop b M N rest x y sol"
  by (induction n) (simp_all add: ops_loop_skip)

lemma replicate_update_last: "(x # replicate n x)[n := y] = replicate n x @ [y]"
  by (induction n) simp_all

lemma store_replicate_last: "store (x # replicate n x) (int n) y = Inr (replicate n x @ [y])"
proof -
  have "store (x # replicate n x) (int n) y = Inr ((x # replicate n x)[n := y])"
    by (rule store_nat) simp
  then show ?thesis by (simp only: replicate_update_last)
qed

lemma backtrack_edge:
  assumes gt: "good_trace a b trace" and e: "a = [] \<or> b = []"
  shows "backtrack trace (int (length a)) (int (length b)) (int (length b) + int (length a))
           = Inr (replicate (length a + length b) [] @ [[int (length a), int (length b)]])"
proof -
  let ?n = "length a + length b"
  have lt: "length trace = Suc ?n" using gt by (simp add: good_trace_def)
  have ex: "backtrack_loop trace (int (length b) + int (length a)) (int (length a)) (int (length b))
              (int (length trace) - 1) (replicate (length trace) [])
            = Inr (int (length a), int (length b), int (length trace) - 1, replicate (length trace) [])"
    using e by (intro backtrack_loop_exit) auto
  have "backtrack trace (int (length a)) (int (length b)) (int (length b) + int (length a))
          = store (replicate (length trace) []) (int (length trace) - 1) [int (length a), int (length b)]"
    unfolding backtrack_def ex by simp
  also have "\<dots> = store ([] # replicate ?n []) (int ?n) [int (length a), int (length b)]"
    unfolding lt by simp
  also have "\<dots> = Inr (replicate ?n [] @ [[int (length a), int (length b)]])"
    by (rule store_replicate_last)
  finally show ?thesis .
qed

text \<open>
  Claim C5.  For a non-empty \<open>b\<close>, \<^verbatim>\<open>Operations\<close> on the empty source and \<open>b\<close> returns
  exactly one operation, an Insert with \<open>J1 = 0\<close> whose content is all of \<open>b\<close>; for a
  non-empty \<open>a\<close>, \<^verbatim>\<open>Operations\<close> on \<open>a\<close> and the empty target returns exactly one
  operation, a Delete with \<open>I1 = 0\<close> and \<open>I2 = len(a)\<close>.
\<close>

theorem Operations_one_side_empty:
  "(b \<noteq> [] \<longrightarrow> Operations [] b = Inr [\<lparr>Kind = Insert, Content = b, I1 = 0, I2 = 0, J1 = 0\<rparr>]) \<and>
   (a \<noteq> [] \<longrightarrow>
      Operations a [] = Inr [\<lparr>Kind = Delete, Content = [], I1 = 0, I2 = int (length a), J1 = 0\<rparr>])"
proof (intro conjI impI)
  assume ne: "b \<noteq> []"
  let ?N = "int (length b)"
  from shortestEditSequence_good[of "[]" b] ne obtain trace where
    t: "shortestEditSequence [] b = Inr (trace, ?N + int (length ([]::string list)))"
    and gt: "good_trace [] b trace" by auto
  have s: "backtrack trace (int (length ([]::string list))) ?N (?N + int (length ([]::string list)))
             = Inr (replicate (length ([]::string list) + length b) [] @ [[int (length ([]::string list)), ?N]])"
    by (rule backtrack_edge[OF gt]) simp
  have pos: "0 < ?N" using ne by simp
  have dl: "delete_loop (0 - ?N) 0 0 0 None = (0, None)" by (rule delete_loop_none) simp
  have il: "insert_loop (0 - ?N) 0 0 None = (?N, Some (new_op Insert 0 0))"
    using insert_loop_run[of "0 - ?N" 0 0 None] pos by simp
  have ad: "add b (0 + ?N) (Some (new_op Insert 0 0)) 0 ?N [] =
              Inr ([] @ [(new_op Insert 0 0)\<lparr>I2 := 0, Content := part b 0 ?N\<rparr>])"
    using pos by (intro add_Insert) simp_all
  have eq: "equal_loop 0 0 ?N = (0, ?N)" by (simp add: equal_loop_eq)
  have "ops_loop b 0 ?N [[0, ?N]] 0 0 [] = Inr [(new_op Insert 0 0)\<lparr>I2 := 0, Content := part b 0 ?N\<rparr>]"
    using ops_loop_step[of "[0, ?N]" 0 0 0 0 None b ?N "[]" "[]" ?N "Some (new_op Insert 0 0)"
        "[(new_op Insert 0 0)\<lparr>I2 := 0, Content := part b 0 ?N\<rparr>]" 0 ?N "[]"]
      dl il ad eq add_None[of b "0 + ?N" 0 0 "[]"] by simp
  then have "ops_loop b 0 ?N (replicate (length b) [] @ [[0, ?N]]) 0 0 []
               = Inr [\<lparr>Kind = Insert, Content = b, I1 = 0, I2 = 0, J1 = 0\<rparr>]"
    by (simp add: ops_loop_skip_empties new_op_def part_all)
  then show "Operations [] b = Inr [\<lparr>Kind = Insert, Content = b, I1 = 0, I2 = 0, J1 = 0\<rparr>]"
    using t s by (simp add: Operations_def)
next
  assume ne: "a \<noteq> []"
  let ?M = "int (length a)"
  from shortestEditSequence_good[of a "[]"] ne obtain trace where
    t: "shortestEditSequence a [] = Inr (trace, int (length ([]::string list)) + ?M)"
    and gt: "good_trace a [] trace" by auto
  have s: "backtrack trace ?M (int (length ([]::string list))) (int (length ([]::string list)) + ?M)
             = Inr (replicate (length a + length ([]::string list)) [] @ [[?M, int (length ([]::string list))]])"
    by (rule backtrack_edge[OF gt]) simp
  have pos: "0 < ?M" using ne by simp
  have dl: "delete_loop (?M - 0) ?M 0 0 None = (?M, Some (new_op Delete 0 0))"
    using delete_loop_run[of 0 0 "?M - 0" ?M None] pos by simp
  have ad: "add [] (?M + 0) (Some (new_op Delete 0 0)) ?M 0 [] = Inr ([] @ [(new_op Delete 0 0)\<lparr>I2 := ?M\<rparr>])"
    using pos by (intro add_Delete) simp
  have il: "insert_loop (?M - 0) ?M 0 None = (0, None)" by (rule insert_loop_none) simp
  have eq: "equal_loop ?M ?M 0 = (?M, 0)" by (simp add: equal_loop_eq)
  have "ops_loop [] ?M 0 [[?M, 0]] 0 0 [] = Inr [(new_op Delete 0 0)\<lparr>I2 := ?M\<rparr>]"
    using ops_loop_step[of "[?M, 0]" ?M 0 0 ?M "Some (new_op Delete 0 0)" "[]" 0 "[]"
        "[(new_op Delete 0 0)\<lparr>I2 := ?M\<rparr>]" 0 None "[(new_op Delete 0 0)\<lparr>I2 := ?M\<rparr>]" ?M 0 "[]"]
      dl il ad eq add_None[of "[]" "?M + 0" ?M 0] by simp
  then have "ops_loop [] ?M 0 (replicate (length a) [] @ [[?M, 0]]) 0 0 []
               = Inr [\<lparr>Kind = Delete, Content = [], I1 = 0, I2 = ?M, J1 = 0\<rparr>]"
    by (simp add: ops_loop_skip_empties new_op_def)
  then show "Operations a [] = Inr [\<lparr>Kind = Delete, Content = [], I1 = 0, I2 = ?M, J1 = 0\<rparr>]"
    using t s by (simp add: Operations_def)
qed

theorem Operations_one_side_empty_witness:
  "Operations [] [''x\<newline>'', ''y''] = Inr [\<lparr>Kind = Insert, Content = [''x\<newline>'', ''y''], I1 = 0, I2 = 0, J1 = 0\<rparr>] \<and>
   Operations [''p\<newline>'', ''q\<newline>'', ''r''] [] = Inr [\<lparr>Kind = Delete, Content = [], I1 = 0, I2 = 3, J1 = 0\<rparr>]"
  using Operations_one_side_empty [of "[''x\<newline>'', ''y'']" "[''p\<newline>'', ''q\<newline>'', ''r'']"] by simp

section \<open>Edit scripts and the paths of the edit graph\<close>

lemma drop_Cons_nth:
  assumes "x # xs = drop n a"
  shows "n < length a \<and> x = a ! n \<and> xs = drop (Suc n) a"
proof -
  have n: "n < length a"
  proof (rule ccontr)
    assume "\<not> n < length a"
    then have "drop n a = []" by simp
    with assms show False by simp
  qed
  from Cons_nth_drop_Suc[OF n] assms have "x # xs = a ! n # drop (Suc n) a" by simp
  then show ?thesis using n by simp
qed

lemma drop_step:
  "0 \<le> x \<Longrightarrow> x < int (length a) \<Longrightarrow> drop (nat x) a = a ! nat x # drop (nat (x + 1)) a"
proof -
  assume h: "0 \<le> x" "x < int (length a)"
  then have "nat x < length a" by simp
  from Cons_nth_drop_Suc[OF this] have "drop (nat x) a = a ! nat x # drop (Suc (nat x)) a" by simp
  moreover have "Suc (nat x) = nat (x + 1)" using h by simp
  ultimately show ?thesis by simp
qed

lemma reach_edits:
  "reach a b d x y \<Longrightarrow> x \<le> int (length a) \<Longrightarrow> y \<le> int (length b) \<Longrightarrow>
   edits (drop (nat x) a) (drop (nat y) b) n \<Longrightarrow> edits a b (d + n)"
proof (induction arbitrary: n rule: reach.induct)
  case origin
  then show ?case by simp
next
  case (keep d x y)
  from keep.hyps(2) have s: "0 \<le> x" "x < int (length a)" "0 \<le> y" "y < int (length b)"
    "lineEq (a ! nat x) (b ! nat y)" by (simp_all add: same_line_def)
  have "edits (a ! nat x # drop (nat (x + 1)) a) (b ! nat y # drop (nat (y + 1)) b) n"
    using keep.prems(3) s(5) by (rule edits.e_keep)
  then have "edits (drop (nat x) a) (drop (nat y) b) n"
    using drop_step[OF s(1,2)] drop_step[OF s(3,4)] by simp
  with keep.IH s show ?case by simp
next
  case (del d x y)
  have x: "0 \<le> x" using reach_valid[OF del.hyps] by simp
  have "edits (a ! nat x # drop (nat (x + 1)) a) (drop (nat y) b) (Suc n)"
    using del.prems(3) by (rule edits.e_del)
  then have "edits (drop (nat x) a) (drop (nat y) b) (Suc n)"
    using drop_step[OF x, of a] del.prems(1) by simp
  with del.IH[of "Suc n"] del.prems show ?case by simp
next
  case (ins d x y)
  have y: "0 \<le> y" using reach_valid[OF ins.hyps] by simp
  have "edits (drop (nat x) a) (b ! nat y # drop (nat (y + 1)) b) (Suc n)"
    using ins.prems(3) by (rule edits.e_ins)
  then have "edits (drop (nat x) a) (drop (nat y) b) (Suc n)"
    using drop_step[OF y, of b] ins.prems(2) by simp
  with ins.IH[of "Suc n"] ins.prems show ?case by simp
qed

lemma edits_reach:
  "edits xs ys n \<Longrightarrow> xs = drop (nat x) a \<Longrightarrow> ys = drop (nat y) b \<Longrightarrow>
   0 \<le> x \<Longrightarrow> x \<le> int (length a) \<Longrightarrow> 0 \<le> y \<Longrightarrow> y \<le> int (length b) \<Longrightarrow>
   reach a b d x y \<Longrightarrow> reach a b (d + n) (int (length a)) (int (length b))"
proof (induction arbitrary: x y d rule: edits.induct)
  case e_nil
  then have "x = int (length a)" "y = int (length b)" by simp_all
  with e_nil show ?case by simp
next
  case (e_del xs ys n x0)
  from drop_Cons_nth[OF e_del.prems(1)] have h: "nat x < length a" "xs = drop (Suc (nat x)) a" by simp_all
  have sx: "Suc (nat x) = nat (x + 1)" using e_del.prems(3) by simp
  have r: "reach a b (Suc d) (x + 1) y" using e_del.prems(7) by (rule reach.del)
  have "reach a b (Suc d + n) (int (length a)) (int (length b))"
    using e_del.IH[of "x + 1" y "Suc d"] h sx e_del.prems r by simp
  then show ?case by simp
next
  case (e_ins xs ys n y0)
  from drop_Cons_nth[OF e_ins.prems(2)] have h: "nat y < length b" "ys = drop (Suc (nat y)) b" by simp_all
  have sy: "Suc (nat y) = nat (y + 1)" using e_ins.prems(5) by simp
  have r: "reach a b (Suc d) x (y + 1)" using e_ins.prems(7) by (rule reach.ins)
  have "reach a b (Suc d + n) (int (length a)) (int (length b))"
    using e_ins.IH[of x "y + 1" "Suc d"] h sy e_ins.prems r by simp
  then show ?case by simp
next
  case (e_keep xs ys n x0 y0)
  from drop_Cons_nth[OF e_keep.prems(1)]
  have hx: "nat x < length a" "x0 = a ! nat x" "xs = drop (Suc (nat x)) a" by simp_all
  from drop_Cons_nth[OF e_keep.prems(2)]
  have hy: "nat y < length b" "y0 = b ! nat y" "ys = drop (Suc (nat y)) b" by simp_all
  have sx: "Suc (nat x) = nat (x + 1)" using e_keep.prems(3) by simp
  have sy: "Suc (nat y) = nat (y + 1)" using e_keep.prems(5) by simp
  have "x < int (length a)" "y < int (length b)" using hx(1) hy(1) by simp_all
  then have "same_line a b x y" using hx hy e_keep.hyps(2) e_keep.prems by (simp add: same_line_def)
  with e_keep.prems(7) have r: "reach a b d (x + 1) (y + 1)" by (rule reach.keep)
  show ?case using e_keep.IH[of "x + 1" "y + 1" d] hx hy sx sy e_keep.prems r by simp
qed

lemma Dmin_edits: "edits a b (Dmin a b)"
  using reach_edits[OF Dmin_reach, of a b 0] edits.e_nil by simp

lemma Dmin_edits_least: "edits a b n \<Longrightarrow> Dmin a b \<le> n"
  using edits_reach[of a b n 0 a 0 b 0] reach.origin Dmin_least[of a b n] by simp

lemma good_trace_rows:
  assumes "good_trace a b trace"
  shows "(\<forall>d \<le> Dmin a b. trace ! d \<noteq> []) \<and>
         (\<forall>d. Dmin a b < d \<and> d \<le> length a + length b \<longrightarrow> trace ! d = [])"
proof -
  have "trace ! d \<noteq> []" if "d \<le> Dmin a b" for d
  proof -
    from assms that have "prev_ok a b (int (length b) + int (length a)) d (trace ! d)"
      by (simp add: good_trace_def)
    then have "int (length (trace ! d)) = 2 * (int (length b) + int (length a)) + 1"
      by (simp add: prev_ok_def)
    then show ?thesis by auto
  qed
  with assms show ?thesis by (simp add: good_trace_def)
qed

lemma Operations_good:
  assumes "a \<noteq> [] \<or> b \<noteq> []"
  shows "\<exists>ops trace. Operations a b = Inr ops \<and>
           shortestEditSequence a b = Inr (trace, int (length b) + int (length a)) \<and>
           good_trace a b trace \<and>
           ops_inv a b ops (int (length a)) (int (length b)) \<and> ops_cost ops = int (Dmin a b)"
proof -
  from shortestEditSequence_good[OF assms] obtain trace where
    t: "shortestEditSequence a b = Inr (trace, int (length b) + int (length a))" and gt: "good_trace a b trace"
    by blast
  from backtrack_good[OF gt assms] obtain snakes where
    s: "backtrack trace (int (length a)) (int (length b)) (int (length b) + int (length a)) = Inr snakes"
    and p: "path_ok a b 0 0 (pts_of snakes)" and c: "path_cost 0 0 (pts_of snakes) = int (Dmin a b)" by blast
  from ops_loop_good[OF refl refl p _ _ _ _ inv_init] obtain sol where
    o: "ops_loop b (int (length a)) (int (length b)) snakes 0 0 [] = Inr sol"
    and i: "ops_inv a b sol (int (length a)) (int (length b))"
    and c': "ops_cost sol = ops_cost [] + path_cost 0 0 (pts_of snakes)" by auto
  have "Operations a b = Inr sol" by (simp add: Operations_def t s o)
  moreover have "ops_cost sol = int (Dmin a b)" using c c' by (simp add: ops_cost_Nil)
  ultimately show ?thesis using t gt i by blast
qed

text \<open>
  Claim C4.  For line sequences that are not both empty, \<^verbatim>\<open>Operations\<close> returns a list
  ordered by \<open>I1\<close> ascending in which every operation ends (\<open>I2\<close>) no later than any later
  operation starts (\<open>I1\<close>), so that the source ranges \<open>[I1, I2)\<close> do not overlap, each
  range lying within the source.  On two empty sequences \<^verbatim>\<open>Operations\<close> panics instead
  of returning the empty list.
\<close>

theorem Operations_ordered:
  "(a \<noteq> [] \<or> b \<noteq> [] \<longrightarrow>
      (\<exists>ops. Operations a b = Inr ops \<and>
         sorted_wrt (\<lambda>p q. I1 p \<le> I1 q) ops \<and>
         sorted_wrt (\<lambda>p q. I2 p \<le> I1 q) ops \<and>
         list_all (\<lambda>p. 0 \<le> I1 p \<and> I1 p \<le> I2 p \<and> I2 p \<le> int (length a)) ops)) \<and>
   Operations [] [] = Inl IndexOutOfRange"
proof (intro conjI impI)
  assume "a \<noteq> [] \<or> b \<noteq> []"
  from Operations_good[OF this] obtain ops where o: "Operations a b = Inr ops"
    and i: "ops_inv a b ops (int (length a)) (int (length b))" by blast
  from i have sh: "sorted_wrt (\<lambda>p q. I2 p \<le> I1 q) ops"
    and la: "list_all (\<lambda>p. 0 \<le> I1 p \<and> I1 p \<le> I2 p \<and> I2 p \<le> int (length a)) ops"
    by (simp_all add: ops_inv_def ops_shape_def)
  have "sorted_wrt (\<lambda>p q. I1 p \<le> I1 q) ops"
  proof (rule sorted_wrt_mono_rel[OF _ sh])
    fix p q assume "p \<in> set ops" "q \<in> set ops" "I2 p \<le> I1 q"
    moreover from la \<open>p \<in> set ops\<close> have "I1 p \<le> I2 p" by (simp add: list_all_iff)
    ultimately show "I1 p \<le> I1 q" by simp
  qed
  with o sh la show "\<exists>ops. Operations a b = Inr ops \<and>
         sorted_wrt (\<lambda>p q. I1 p \<le> I1 q) ops \<and>
         sorted_wrt (\<lambda>p q. I2 p \<le> I1 q) ops \<and>
         list_all (\<lambda>p. 0 \<le> I1 p \<and> I1 p \<le> I2 p \<and> I2 p \<le> int (length a)) ops" by blast
next
  show "Operations [] [] = Inl IndexOutOfRange" by code_simp
qed

theorem Operations_ordered_witness:
  "\<exists>ops. Operations [''a\<newline>'', ''b\<newline>'', ''c\<newline>''] [''x\<newline>'', ''b\<newline>'', ''y\<newline>'', ''z\<newline>''] = Inr ops \<and>
     sorted_wrt (\<lambda>p q. I1 p \<le> I1 q) ops \<and>
     sorted_wrt (\<lambda>p q. I2 p \<le> I1 q) ops \<and>
     list_all (\<lambda>p. 0 \<le> I1 p \<and> I1 p \<le> I2 p \<and> I2 p \<le> int (length [''a\<newline>'', ''b\<newline>'', ''c\<newline>''])) ops"
  using Operations_ordered [of "[''a\<newline>'', ''b\<newline>'', ''c\<newline>'']" "[''x\<newline>'', ''b\<newline>'', ''y\<newline>'', ''z\<newline>'']"]
  by simp

text \<open>
  Claim C2.  For line sequences that are not both empty, the total number of
  line-operations in the list \<^verbatim>\<open>Operations\<close> returns (the lines deleted plus the lines
  inserted) is the line-level edit distance \<open>D\<close> under the comparer: some edit script
  has \<open>D\<close> deletions and insertions and none has fewer; and the forward search
  terminates at depth \<open>D\<close>: the trace holds a snapshot for each depth from 0 to \<open>D\<close> and
  none above.  On two empty sequences the search panics at depth 0, and \<^verbatim>\<open>Operations\<close>
  with it.
\<close>

theorem Operations_count:
  "(a \<noteq> [] \<or> b \<noteq> [] \<longrightarrow>
      (\<exists>ops trace D. Operations a b = Inr ops \<and> ops_cost ops = int D \<and>
         edits a b D \<and> (\<forall>n. edits a b n \<longrightarrow> D \<le> n) \<and>
         shortestEditSequence a b = Inr (trace, int (length b) + int (length a)) \<and>
         (\<forall>d \<le> D. trace ! d \<noteq> []) \<and>
         (\<forall>d. D < d \<and> d \<le> length a + length b \<longrightarrow> trace ! d = []))) \<and>
   shortestEditSequence [] [] = Inl IndexOutOfRange \<and> Operations [] [] = Inl IndexOutOfRange"
proof (intro conjI impI)
  assume "a \<noteq> [] \<or> b \<noteq> []"
  from Operations_good[OF this] obtain ops trace where o: "Operations a b = Inr ops"
    and t: "shortestEditSequence a b = Inr (trace, int (length b) + int (length a))"
    and gt: "good_trace a b trace" and c: "ops_cost ops = int (Dmin a b)" by blast
  note rows = good_trace_rows[OF gt]
  have least: "\<forall>n. edits a b n \<longrightarrow> Dmin a b \<le> n" using Dmin_edits_least by blast
  show "\<exists>ops trace D. Operations a b = Inr ops \<and> ops_cost ops = int D \<and>
         edits a b D \<and> (\<forall>n. edits a b n \<longrightarrow> D \<le> n) \<and>
         shortestEditSequence a b = Inr (trace, int (length b) + int (length a)) \<and>
         (\<forall>d \<le> D. trace ! d \<noteq> []) \<and>
         (\<forall>d. D < d \<and> d \<le> length a + length b \<longrightarrow> trace ! d = [])"
    using o c Dmin_edits[of a b] least t rows
    by (intro exI[of _ ops] exI[of _ trace] exI[of _ "Dmin a b"]) simp
next
  show "shortestEditSequence [] [] = Inl IndexOutOfRange" by code_simp
next
  show "Operations [] [] = Inl IndexOutOfRange" by code_simp
qed

theorem Operations_count_witness:
  "\<exists>ops trace D. Operations [''a\<newline>'', ''b\<newline>'', ''c\<newline>''] [''a\<newline>'', ''x\<newline>'', ''c\<newline>''] = Inr ops \<and>
     ops_cost ops = int D \<and>
     edits [''a\<newline>'', ''b\<newline>'', ''c\<newline>''] [''a\<newline>'', ''x\<newline>'', ''c\<newline>''] D \<and>
     (\<forall>n. edits [''a\<newline>'', ''b\<newline>'', ''c\<newline>''] [''a\<newline>'', ''x\<newline>'', ''c\<newline>''] n \<longrightarrow> D \<le> n) \<and>
     shortestEditSequence [''a\<newline>'', ''b\<newline>'', ''c\<newline>''] [''a\<newline>'', ''x\<newline>'', ''c\<newline>'']
       = Inr (trace, int (length [''a\<newline>'', ''x\<newline>'', ''c\<newline>'']) + int (length [''a\<newline>'', ''b\<newline>'', ''c\<newline>''])) \<and>
     (\<forall>d \<le> D. trace ! d \<noteq> []) \<and>
     (\<forall>d. D < d \<and> d \<le> length [''a\<newline>'', ''b\<newline>'', ''c\<newline>''] + length [''a\<newline>'', ''x\<newline>'', ''c\<newline>''] \<longrightarrow> trace ! d = [])"
  using Operations_count [of "[''a\<newline>'', ''b\<newline>'', ''c\<newline>'']" "[''a\<newline>'', ''x\<newline>'', ''c\<newline>'']"]
  by simp

end
